theory Spec2Isabelle
  imports Main
begin

section \<open>The AVL tree of music21/timespans/core.py\<close>

text \<open>
  The module defines two classes. \<^verbatim>\<open>AVLNode\<close> has the slots balance, height, offset,
  payload, leftChild and rightChild; a child slot holds a node or Python's \<^verbatim>\<open>None\<close>.
  \<^verbatim>\<open>AVLTree\<close> has the single slot rootNode. Every node is owned by exactly one slot
  (the recursive operations reattach what they return to the slot they descended from),
  so the mutable object graph is a tree and is modelled by a value: the constructor
  \<open>NoneNode\<close> stands for \<^verbatim>\<open>None\<close> in a slot, \<open>AVLNode\<close> for an object with its six
  fields in the order \<^verbatim>\<open>__init__\<close> assigns them. A payload is opaque to the tree;
  \<open>None\<close> is Python's \<^verbatim>\<open>None\<close>, the default of \<^verbatim>\<open>__init__\<close>.

  Offsets are taken from a linear order (numbers without NaN). \<^verbatim>\<open>AVLNode\<close> defines neither
  \<^verbatim>\<open>__bool__\<close> nor \<^verbatim>\<open>__len__\<close>, and its base class \<^verbatim>\<open>common.SlottedObject\<close>, which is
  outside this module, is taken to define none either; so the tests
  \<^verbatim>\<open>if node.leftChild:\<close> and \<^verbatim>\<open>x or node\<close> distinguish exactly \<^verbatim>\<open>None\<close> from a node.
\<close>

datatype ('k, 'p) node =
    NoneNode
  | AVLNode (balance: int) (height: int) (offset: 'k) (payload: "'p option")
            (leftChild: "('k, 'p) node") (rightChild: "('k, 'p) node")

record ('k, 'p) AVLTree =
  rootNode :: "('k, 'p) node"

text \<open>
  Two things can go wrong in the module: the explicit \<^verbatim>\<open>raise TimespanException\<close> of
  \<^verbatim>\<open>_rebalance\<close>, and an attribute read on \<^verbatim>\<open>None\<close> (Python's AttributeError) where
  a rotation or \<^verbatim>\<open>_rebalance\<close> dereferences a child that is absent.
\<close>

datatype error = TimespanException | AttributeError

subsection \<open>AVLNode\<close>

text \<open>\<^verbatim>\<open>AVLNode.__init__(offset, payload=None)\<close>.\<close>

definition newNode :: "'k \<Rightarrow> ('k, 'p) node" where
  "newNode k = AVLNode 0 0 k None NoneNode NoneNode"

text \<open>
  The two local variables of \<^verbatim>\<open>update\<close>: \<open>-1\<close> for an absent child, the child's cached
  height otherwise.
\<close>

fun childHeight :: "('k, 'p) node \<Rightarrow> int" where
  "childHeight NoneNode = - 1"
| "childHeight (AVLNode b h k p l r) = h"

text \<open>\<^verbatim>\<open>AVLNode.update\<close>; a method, so its receiver is never \<^verbatim>\<open>None\<close>.\<close>

fun update :: "('k, 'p) node \<Rightarrow> ('k, 'p) node" where
  "update (AVLNode b h k p l r) =
     AVLNode (childHeight r - childHeight l) (max (childHeight l) (childHeight r) + 1) k p l r"
| "update NoneNode = NoneNode"

subsection \<open>Rotations and rebalancing\<close>

text \<open>
  \<^verbatim>\<open>_rotateLeftLeft\<close>: nextNode = node.leftChild; node.leftChild = nextNode.rightChild;
  node.update(); nextNode.rightChild = node; nextNode.update(); return nextNode.
\<close>

fun rotateLeftLeft :: "('k, 'p) node \<Rightarrow> error + ('k, 'p) node" where
  "rotateLeftLeft (AVLNode b h k p (AVLNode lb lh lk lp ll lr) r) =
     Inr (update (AVLNode lb lh lk lp ll (update (AVLNode b h k p lr r))))"
| "rotateLeftLeft (AVLNode b h k p NoneNode r) = Inl AttributeError"
| "rotateLeftLeft NoneNode = Inl AttributeError"

text \<open>
  \<^verbatim>\<open>_rotateRightRight\<close>: nextNode = node.rightChild; node.rightChild = nextNode.leftChild;
  node.update(); nextNode.leftChild = node; nextNode.update(); return nextNode.
\<close>

fun rotateRightRight :: "('k, 'p) node \<Rightarrow> error + ('k, 'p) node" where
  "rotateRightRight (AVLNode b h k p l (AVLNode rb rh rk rp rl rr)) =
     Inr (update (AVLNode rb rh rk rp (update (AVLNode b h k p l rl)) rr))"
| "rotateRightRight (AVLNode b h k p l NoneNode) = Inl AttributeError"
| "rotateRightRight NoneNode = Inl AttributeError"

text \<open>
  \<^verbatim>\<open>_rotateLeftRight\<close>: node.leftChild = self._rotateRightRight(node.leftChild);
  node.update(); return self._rotateLeftLeft(node).
\<close>

fun rotateLeftRight :: "('k, 'p) node \<Rightarrow> error + ('k, 'p) node" where
  "rotateLeftRight (AVLNode b h k p l r) =
     (case rotateRightRight l of
        Inl e \<Rightarrow> Inl e
      | Inr l' \<Rightarrow> rotateLeftLeft (update (AVLNode b h k p l' r)))"
| "rotateLeftRight NoneNode = Inl AttributeError"

text \<open>
  \<^verbatim>\<open>_rotateRightLeft\<close>: node.rightChild = self._rotateLeftLeft(node.rightChild);
  node.update(); return self._rotateRightRight(node).
\<close>

fun rotateRightLeft :: "('k, 'p) node \<Rightarrow> error + ('k, 'p) node" where
  "rotateRightLeft (AVLNode b h k p l r) =
     (case rotateLeftLeft r of
        Inl e \<Rightarrow> Inl e
      | Inr r' \<Rightarrow> rotateRightRight (update (AVLNode b h k p l r')))"
| "rotateRightLeft NoneNode = Inl AttributeError"

text \<open>The read \<^verbatim>\<open>child.balance\<close>, which fails on \<^verbatim>\<open>None\<close>.\<close>

fun readBalance :: "('k, 'p) node \<Rightarrow> error + int" where
  "readBalance NoneNode = Inl AttributeError"
| "readBalance (AVLNode b h k p l r) = Inr b"

text \<open>The first \<^verbatim>\<open>if\<close>/\<^verbatim>\<open>elif\<close> of \<^verbatim>\<open>_rebalance\<close>: which rotation, if any.\<close>

fun rebalanceRotate :: "('k, 'p) node \<Rightarrow> error + ('k, 'p) node" where
  "rebalanceRotate NoneNode = Inr NoneNode"
| "rebalanceRotate (AVLNode b h k p l r) =
     (if b > 1 then
        (case readBalance r of
           Inl e \<Rightarrow> Inl e
         | Inr rb \<Rightarrow>
             if 0 \<le> rb then rotateRightRight (AVLNode b h k p l r)
             else rotateRightLeft (AVLNode b h k p l r))
      else if b < - 1 then
        (case readBalance l of
           Inl e \<Rightarrow> Inl e
         | Inr lb \<Rightarrow>
             if lb \<le> 0 then rotateLeftLeft (AVLNode b h k p l r)
             else rotateLeftRight (AVLNode b h k p l r))
      else Inr (AVLNode b h k p l r))"

text \<open>
  The second \<^verbatim>\<open>if\<close> of \<^verbatim>\<open>_rebalance\<close>: the balance of the node that now roots the
  subtree is checked. A rotation never returns \<^verbatim>\<open>None\<close> (it would have failed before),
  so the first equation is only there for totality.
\<close>

fun rebalanceCheck :: "('k, 'p) node \<Rightarrow> error + ('k, 'p) node" where
  "rebalanceCheck NoneNode = Inl AttributeError"
| "rebalanceCheck (AVLNode b h k p l r) =
     (if b < - 1 \<or> b > 1 then Inl TimespanException else Inr (AVLNode b h k p l r))"

text \<open>\<^verbatim>\<open>_rebalance\<close>: nothing is done to \<^verbatim>\<open>None\<close>.\<close>

fun rebalance :: "('k, 'p) node \<Rightarrow> error + ('k, 'p) node" where
  "rebalance NoneNode = Inr NoneNode"
| "rebalance (AVLNode b h k p l r) =
     (case rebalanceRotate (AVLNode b h k p l r) of
        Inl e \<Rightarrow> Inl e
      | Inr n \<Rightarrow> rebalanceCheck n)"

subsection \<open>AVLTree\<close>

text \<open>\<^verbatim>\<open>AVLTree.__init__\<close>.\<close>

definition emptyTree :: "('k, 'p) AVLTree" where
  "emptyTree = \<lparr> rootNode = NoneNode \<rparr>"

text \<open>\<^verbatim>\<open>__iter__\<close>: the nodes in left-to-right order.\<close>

fun iterNodes :: "('k, 'p) node \<Rightarrow> ('k, 'p) node list" where
  "iterNodes NoneNode = []"
| "iterNodes (AVLNode b h k p l r) = iterNodes l @ AVLNode b h k p l r # iterNodes r"

definition iter :: "('k, 'p) AVLTree \<Rightarrow> ('k, 'p) node list" where
  "iter t = iterNodes (rootNode t)"

text \<open>The inner function \<^verbatim>\<open>recurse\<close> of \<^verbatim>\<open>insertAtOffset\<close>.\<close>

fun insertRecurse :: "('k::linorder, 'p) node \<Rightarrow> 'k \<Rightarrow> error + ('k, 'p) node" where
  "insertRecurse NoneNode x = Inr (newNode x)"
| "insertRecurse (AVLNode b h k p l r) x =
     (if x < k then
        (case insertRecurse l x of
           Inl e \<Rightarrow> Inl e
         | Inr l' \<Rightarrow> rebalance (update (AVLNode b h k p l' r)))
      else if k < x then
        (case insertRecurse r x of
           Inl e \<Rightarrow> Inl e
         | Inr r' \<Rightarrow> rebalance (update (AVLNode b h k p l r')))
      else rebalance (AVLNode b h k p l r))"

definition insertAtOffset :: "('k::linorder, 'p) AVLTree \<Rightarrow> 'k \<Rightarrow> error + ('k, 'p) AVLTree" where
  "insertAtOffset t x =
     (case insertRecurse (rootNode t) x of
        Inl e \<Rightarrow> Inl e
      | Inr n \<Rightarrow> Inr (t\<lparr>rootNode := n\<rparr>))"

text \<open>The inner function \<^verbatim>\<open>recurse\<close> of \<^verbatim>\<open>getNodeByOffset\<close>.\<close>

fun getNodeRecurse :: "'k::linorder \<Rightarrow> ('k, 'p) node \<Rightarrow> ('k, 'p) node" where
  "getNodeRecurse x NoneNode = NoneNode"
| "getNodeRecurse x (AVLNode b h k p l r) =
     (if k = x then AVLNode b h k p l r
      else if l \<noteq> NoneNode \<and> x < k then getNodeRecurse x l
      else if r \<noteq> NoneNode \<and> k < x then getNodeRecurse x r
      else NoneNode)"

definition getNodeByOffset :: "('k::linorder, 'p) AVLTree \<Rightarrow> 'k \<Rightarrow> ('k, 'p) node" where
  "getNodeByOffset t x = getNodeRecurse x (rootNode t)"

text \<open>Python's \<^verbatim>\<open>a or b\<close> on nodes.\<close>

fun orNode :: "('k, 'p) node \<Rightarrow> ('k, 'p) node \<Rightarrow> ('k, 'p) node" where
  "orNode NoneNode n = n"
| "orNode (AVLNode b h k p l r) n = AVLNode b h k p l r"

text \<open>The inner function \<^verbatim>\<open>recurse\<close> of \<^verbatim>\<open>_getNodeAfter\<close>.\<close>

fun afterRecurse :: "('k::linorder, 'p) node \<Rightarrow> 'k \<Rightarrow> ('k, 'p) node" where
  "afterRecurse NoneNode x = NoneNode"
| "afterRecurse (AVLNode b h k p l r) x =
     (if k \<le> x \<and> r \<noteq> NoneNode then afterRecurse r x
      else if x < k then orNode (afterRecurse l x) (AVLNode b h k p l r)
      else NoneNode)"

definition getNodeAfter :: "('k::linorder, 'p) AVLTree \<Rightarrow> 'k \<Rightarrow> ('k, 'p) node" where
  "getNodeAfter t x = afterRecurse (rootNode t) x"

text \<open>The tail of \<^verbatim>\<open>getOffsetAfter\<close> and \<^verbatim>\<open>getOffsetBefore\<close>: the offset of a node, if any.\<close>

fun offsetOrNone :: "('k, 'p) node \<Rightarrow> 'k option" where
  "offsetOrNone NoneNode = None"
| "offsetOrNone (AVLNode b h k p l r) = Some k"

definition getOffsetAfter :: "('k::linorder, 'p) AVLTree \<Rightarrow> 'k \<Rightarrow> 'k option" where
  "getOffsetAfter t x = offsetOrNone (getNodeAfter t x)"

text \<open>The inner function \<^verbatim>\<open>recurse\<close> of \<^verbatim>\<open>_getNodeBefore\<close>.\<close>

fun beforeRecurse :: "('k::linorder, 'p) node \<Rightarrow> 'k \<Rightarrow> ('k, 'p) node" where
  "beforeRecurse NoneNode x = NoneNode"
| "beforeRecurse (AVLNode b h k p l r) x =
     (if k < x then orNode (beforeRecurse r x) (AVLNode b h k p l r)
      else if x \<le> k \<and> l \<noteq> NoneNode then beforeRecurse l x
      else NoneNode)"

definition getNodeBefore :: "('k::linorder, 'p) AVLTree \<Rightarrow> 'k \<Rightarrow> ('k, 'p) node" where
  "getNodeBefore t x = beforeRecurse (rootNode t) x"

definition getOffsetBefore :: "('k::linorder, 'p) AVLTree \<Rightarrow> 'k \<Rightarrow> 'k option" where
  "getOffsetBefore t x = offsetOrNone (getNodeBefore t x)"

text \<open>
  The \<^verbatim>\<open>while\<close> loop of \<^verbatim>\<open>_remove\<close>: from the right child, follow leftChild as long as
  there is one. It is entered with a node, never with \<^verbatim>\<open>None\<close>.
\<close>

fun farthestLeft :: "('k, 'p) node \<Rightarrow> ('k, 'p) node" where
  "farthestLeft (AVLNode b h k p NoneNode r) = AVLNode b h k p NoneNode r"
| "farthestLeft (AVLNode b h k p (AVLNode lb lh lk lp ll lr) r) =
     farthestLeft (AVLNode lb lh lk lp ll lr)"
| "farthestLeft NoneNode = NoneNode"

text \<open>
  \<^verbatim>\<open>_remove(node, offset)\<close>. In the two-children case the successor's offset and payload
  are written into the node before the successor is removed from the right subtree.
  The last \<^verbatim>\<open>elif\<close> has no \<^verbatim>\<open>else\<close>: were none of the three comparisons true, the node
  would go to \<^verbatim>\<open>_rebalance\<close> as it is.
\<close>

fun avlRemove :: "('k::linorder, 'p) node \<Rightarrow> 'k \<Rightarrow> error + ('k, 'p) node" where
  "avlRemove NoneNode x = rebalance NoneNode"
| "avlRemove (AVLNode b h k p l r) x =
     (if k = x then
        (if l \<noteq> NoneNode \<and> r \<noteq> NoneNode then
           (case farthestLeft r of
              NoneNode \<Rightarrow> Inl AttributeError
            | AVLNode nb nh nk np nl nr \<Rightarrow>
                (case avlRemove r nk of
                   Inl e \<Rightarrow> Inl e
                 | Inr r' \<Rightarrow> rebalance (update (AVLNode b h nk np l r'))))
         else rebalance (orNode l r))
      else if k > x then
        (case avlRemove l x of
           Inl e \<Rightarrow> Inl e
         | Inr l' \<Rightarrow> rebalance (update (AVLNode b h k p l' r)))
      else if k < x then
        (case avlRemove r x of
           Inl e \<Rightarrow> Inl e
         | Inr r' \<Rightarrow> rebalance (update (AVLNode b h k p l r')))
      else rebalance (AVLNode b h k p l r))"

text \<open>
  \<^verbatim>\<open>_remove\<close> returns the node that is the new root of the subtree it was given; applied to
  the root of a tree, the result is the tree's new rootNode.
\<close>

definition removeAtOffset :: "('k::linorder, 'p) AVLTree \<Rightarrow> 'k \<Rightarrow> error + ('k, 'p) AVLTree" where
  "removeAtOffset t x =
     (case avlRemove (rootNode t) x of
        Inl e \<Rightarrow> Inl e
      | Inr n \<Rightarrow> Inr (t\<lparr>rootNode := n\<rparr>))"

subsection \<open>Invariants and observations\<close>

text \<open>
  The cached fields of a subtree are consistent when, at every node, height is one more
  than the larger child height (\<open>-1\<close> for an absent child), balance is the right child
  height minus the left one, and balance lies in \<open>{-1, 0, 1}\<close>.
\<close>

fun avl :: "('k, 'p) node \<Rightarrow> bool" where
  "avl NoneNode = True"
| "avl (AVLNode b h k p l r) =
     (avl l \<and> avl r \<and> h = max (childHeight l) (childHeight r) + 1
      \<and> b = childHeight r - childHeight l \<and> - 1 \<le> b \<and> b \<le> 1)"

text \<open>
  Following the specification: the height of a subtree, computed from its shape alone.
  An absent child has height \<open>-1\<close>, a node one more than the larger height of its children.
\<close>

fun heightOf :: "('k, 'p) node \<Rightarrow> int" where
  "heightOf NoneNode = - 1"
| "heightOf (AVLNode b h k p l r) = max (heightOf l) (heightOf r) + 1"

text \<open>
  The same without the bound on balance: the cached fields are fresh, whatever the shape
  of the subtree. This is what calling \<^verbatim>\<open>update\<close> after every change of a child gives.
\<close>

fun cached :: "('k, 'p) node \<Rightarrow> bool" where
  "cached NoneNode = True"
| "cached (AVLNode b h k p l r) =
     (cached l \<and> cached r \<and> h = max (childHeight l) (childHeight r) + 1
      \<and> b = childHeight r - childHeight l)"

text \<open>The offset and payload of every node, in the order of \<open>iterNodes\<close>.\<close>

fun entries :: "('k, 'p) node \<Rightarrow> ('k \<times> 'p option) list" where
  "entries NoneNode = []"
| "entries (AVLNode b h k p l r) = entries l @ (k, p) # entries r"

definition offsets :: "('k, 'p) node \<Rightarrow> 'k list" where
  "offsets n = map fst (entries n)"

definition keys :: "('k, 'p) node \<Rightarrow> 'k set" where
  "keys n = set (offsets n)"

text \<open>Search-tree order: the offsets increase strictly from left to right.\<close>

definition bst :: "('k::linorder, 'p) node \<Rightarrow> bool" where
  "bst n = sorted_wrt (<) (offsets n)"

definition invariants :: "('k::linorder, 'p) AVLTree \<Rightarrow> bool" where
  "invariants t = (bst (rootNode t) \<and> avl (rootNode t))"

text \<open>A sequence of calls on one tree; the first exception ends it.\<close>

datatype 'k operation = Insert 'k | Remove 'k

fun applyOp :: "('k::linorder, 'p) AVLTree \<Rightarrow> 'k operation \<Rightarrow> error + ('k, 'p) AVLTree" where
  "applyOp t (Insert x) = insertAtOffset t x"
| "applyOp t (Remove x) = removeAtOffset t x"

fun applyOps :: "('k::linorder, 'p) AVLTree \<Rightarrow> 'k operation list \<Rightarrow> error + ('k, 'p) AVLTree" where
  "applyOps t [] = Inr t"
| "applyOps t (c # cs) =
     (case applyOp t c of Inl e \<Rightarrow> Inl e | Inr t' \<Rightarrow> applyOps t' cs)"

subsection \<open>The diagnostic dump\<close>

text \<open>
  Python's \<^verbatim>\<open>str\<close> of an integer, which \<^verbatim>\<open>format\<close> applies to a height. How an offset is
  printed depends on its type (\<^verbatim>\<open>20\<close> for an int, \<^verbatim>\<open>1.0\<close> for a float), so the
  printing of offsets is a parameter \<open>showK\<close> of the dump.
\<close>

fun showNat :: "nat \<Rightarrow> string" where
  "showNat n =
     (if n < 10 then [char_of (48 + n)]
      else showNat (n div 10) @ [char_of (48 + n mod 10)])"

definition showInt :: "int \<Rightarrow> string" where
  "showInt i = (if i < 0 then CHR ''-'' # showNat (nat (- i)) else showNat (nat i))"

text \<open>\<^verbatim>\<open>lcHeight\<close> and \<^verbatim>\<open>rcHeight\<close> of \<^verbatim>\<open>__repr__\<close>, as \<^verbatim>\<open>format\<close> prints them.\<close>

fun showChildHeight :: "('k, 'p) node \<Rightarrow> string" where
  "showChildHeight NoneNode = ''None''"
| "showChildHeight (AVLNode b h k p l r) = showInt h"

text \<open>\<^verbatim>\<open>AVLNode.__repr__\<close>; a method, so its receiver is never \<^verbatim>\<open>None\<close>.\<close>

fun repr :: "('k \<Rightarrow> string) \<Rightarrow> ('k, 'p) node \<Rightarrow> string" where
  "repr showK (AVLNode b h k p l r) =
     ''<Node: Start:'' @ showK k @ '' Height:'' @ showInt h
       @ '' L:'' @ showChildHeight l @ '' R:'' @ showChildHeight r @ ''>''"
| "repr showK NoneNode = ''None''"

text \<open>
  The lines a child contributes to \<^verbatim>\<open>_getDebugPieces\<close>: its first line behind a tab and
  the child's role, every further line behind a tab. The child's list starts with its
  own repr, so \<^verbatim>\<open>subresult[0]\<close> exists.
\<close>

fun childPieces :: "char \<Rightarrow> string list \<Rightarrow> string list" where
  "childPieces c [] = []"
| "childPieces c (s # ss) = ([CHR 0x09, c] @ '': '' @ s) # map (\<lambda>x. CHR 0x09 # x) ss"

fun getDebugPieces :: "('k \<Rightarrow> string) \<Rightarrow> ('k, 'p) node \<Rightarrow> string list" where
  "getDebugPieces showK NoneNode = []"
| "getDebugPieces showK (AVLNode b h k p l r) =
     repr showK (AVLNode b h k p l r)
       # (if l \<noteq> NoneNode then childPieces CHR ''L'' (getDebugPieces showK l) else [])
       @ (if r \<noteq> NoneNode then childPieces CHR ''R'' (getDebugPieces showK r) else [])"

text \<open>\<^verbatim>\<open>'\n'.join\<close>.\<close>

fun joinLines :: "string list \<Rightarrow> string" where
  "joinLines [] = []"
| "joinLines [s] = s"
| "joinLines (s # t # ss) = s @ CHR 0x0A # joinLines (t # ss)"

text \<open>\<^verbatim>\<open>AVLNode.debug\<close>.\<close>

definition debugNode :: "('k \<Rightarrow> string) \<Rightarrow> ('k, 'p) node \<Rightarrow> string" where
  "debugNode showK n = joinLines (getDebugPieces showK n)"

text \<open>\<^verbatim>\<open>AVLTree.debug\<close>.\<close>

definition debug :: "('k \<Rightarrow> string) \<Rightarrow> ('k, 'p) AVLTree \<Rightarrow> string" where
  "debug showK t = (if rootNode t \<noteq> NoneNode then debugNode showK (rootNode t) else [])"

subsection \<open>The rotations as the specification words them\<close>

text \<open>
  Following the specification: a single right rotation promotes the left child to the
  subtree root; the promoted node's former right child becomes the left child of the
  demoted original root; heights are recomputed bottom-up, the demoted node first, then
  the promoted node. A node without a left child is left as it is.
\<close>

fun specSingleRight :: "('k, 'p) node \<Rightarrow> ('k, 'p) node" where
  "specSingleRight (AVLNode b h k p (AVLNode lb lh lk lp ll lr) r) =
     (let demoted = update (AVLNode b h k p lr r)
      in update (AVLNode lb lh lk lp ll demoted))"
| "specSingleRight n = n"

text \<open>Following the specification: the mirror applies for the left rotation.\<close>

fun specSingleLeft :: "('k, 'p) node \<Rightarrow> ('k, 'p) node" where
  "specSingleLeft (AVLNode b h k p l (AVLNode rb rh rk rp rl rr)) =
     (let demoted = update (AVLNode b h k p l rl)
      in update (AVLNode rb rh rk rp demoted rr))"
| "specSingleLeft n = n"

text \<open>
  Following the specification: a double rotation is two single rotations, applied to
  the appropriate child first, then to the node itself.
\<close>

fun specRightThenLeft :: "('k, 'p) node \<Rightarrow> ('k, 'p) node" where
  "specRightThenLeft (AVLNode b h k p l r) = specSingleLeft (AVLNode b h k p l (specSingleRight r))"
| "specRightThenLeft NoneNode = NoneNode"

fun specLeftThenRight :: "('k, 'p) node \<Rightarrow> ('k, 'p) node" where
  "specLeftThenRight (AVLNode b h k p l r) = specSingleRight (AVLNode b h k p (specSingleLeft l) r)"
| "specLeftThenRight NoneNode = NoneNode"

subsection \<open>An example tree\<close>

text \<open>
  The tree of the doctest of \<^verbatim>\<open>insertAtOffset\<close> (offsets 20, 10, 5, 30 inserted in that order),
  with payloads attached to the nodes 10 and 20 as a caller would through \<^verbatim>\<open>getNodeByOffset\<close>.
\<close>

definition exampleTree :: "(int, nat) AVLTree" where
  "exampleTree =
     \<lparr>rootNode = AVLNode 1 2 10 (Some 7) (AVLNode 0 0 5 None NoneNode NoneNode)
        (AVLNode 1 1 20 (Some 3) NoneNode (AVLNode 0 0 30 None NoneNode NoneNode))\<rparr>"

text \<open>
  Seven nodes linked through rightChild only, every node updated after its child was set:
  the cached fields are fresh, but the balance bound is broken everywhere above the last
  two nodes.
\<close>

definition rightChain :: "(int, nat) AVLTree" where
  "rightChain =
     \<lparr>rootNode = AVLNode 6 6 1 None NoneNode (AVLNode 5 5 2 None NoneNode
        (AVLNode 4 4 3 None NoneNode (AVLNode 3 3 4 None NoneNode (AVLNode 2 2 5 None NoneNode
          (AVLNode 1 1 6 None NoneNode (AVLNode 0 0 7 None NoneNode NoneNode))))))\<rparr>"

section \<open>Properties\<close>

subsection \<open>Rotations keep the left-to-right order of offsets and payloads\<close>

lemma childHeight_ge: "avl t \<Longrightarrow> - 1 \<le> childHeight t"
  by (induction t) auto

lemma entries_update [simp]: "entries (update n) = entries n"
  by (cases n) auto

lemma rotateLeftLeft_entries: "rotateLeftLeft n = Inr n' \<Longrightarrow> entries n' = entries n"
  by (induction n rule: rotateLeftLeft.induct) auto

lemma rotateRightRight_entries: "rotateRightRight n = Inr n' \<Longrightarrow> entries n' = entries n"
  by (induction n rule: rotateRightRight.induct) auto

lemma rotateLeftRight_entries: "rotateLeftRight n = Inr n' \<Longrightarrow> entries n' = entries n"
  by (cases n) (auto split: sum.splits dest!: rotateLeftLeft_entries rotateRightRight_entries)

lemma rotateRightLeft_entries: "rotateRightLeft n = Inr n' \<Longrightarrow> entries n' = entries n"
  by (cases n) (auto split: sum.splits dest!: rotateLeftLeft_entries rotateRightRight_entries)

lemma rebalanceCheck_id: "rebalanceCheck n = Inr n' \<Longrightarrow> n' = n"
  by (cases n) (auto split: if_splits)

lemma rebalanceRotate_entries: "rebalanceRotate n = Inr n' \<Longrightarrow> entries n' = entries n"
  by (cases n) (auto split: sum.splits if_splits
      simp del: rotateLeftLeft.simps rotateRightRight.simps rotateLeftRight.simps rotateRightLeft.simps
      dest!: rotateLeftLeft_entries rotateRightRight_entries rotateLeftRight_entries rotateRightLeft_entries)

lemma rebalance_entries: "rebalance n = Inr n' \<Longrightarrow> entries n' = entries n"
  by (cases n) (auto split: sum.splits simp del: rebalanceRotate.simps
      dest!: rebalanceRotate_entries rebalanceCheck_id)

lemma rebalance_avl_id: "avl n \<Longrightarrow> rebalance n = Inr n"
  by (cases n) auto

lemma rebalance_update_avl:
  assumes "avl l" "avl r" "childHeight r - childHeight l \<le> 2" "- 2 \<le> childHeight r - childHeight l"
  shows "\<exists>t'. rebalance (update (AVLNode b h k p l r)) = Inr t' \<and> avl t' \<and> t' \<noteq> NoneNode
     \<and> (childHeight t' = max (childHeight l) (childHeight r) + 1
        \<or> (\<bar>childHeight r - childHeight l\<bar> = 2 \<and> childHeight t' = max (childHeight l) (childHeight r)))"
proof -
  consider (bal) "\<bar>childHeight r - childHeight l\<bar> \<le> 1"
    | (right) "childHeight r - childHeight l = 2"
    | (left) "childHeight r - childHeight l = - 2"
    using assms(3,4) by linarith
  then show ?thesis
  proof cases
    case bal
    then show ?thesis using assms by auto
  next
    case right
    have "r \<noteq> NoneNode" using right childHeight_ge[OF assms(1)] by auto
    then obtain rb rh rk rp rl rr where r: "r = AVLNode rb rh rk rp rl rr" by (cases r) auto
    show ?thesis
    proof (cases "0 \<le> rb")
      case True
      then show ?thesis using assms right r by (auto simp: max_def split: if_splits)
    next
      case False
      then have "rl \<noteq> NoneNode" using assms(2) r childHeight_ge[of rr] by auto
      then obtain b1 h1 k1 p1 l1 r1 where rl: "rl = AVLNode b1 h1 k1 p1 l1 r1" by (cases rl) auto
      show ?thesis using assms right r rl False by (auto simp: max_def split: if_splits)
    qed
  next
    case left
    have "l \<noteq> NoneNode" using left childHeight_ge[OF assms(2)] by auto
    then obtain lb lh lk lp ll lr where l: "l = AVLNode lb lh lk lp ll lr" by (cases l) auto
    show ?thesis
    proof (cases "lb \<le> 0")
      case True
      then show ?thesis using assms left l by (auto simp: max_def split: if_splits)
    next
      case False
      then have "lr \<noteq> NoneNode" using assms(1) l childHeight_ge[of ll] by auto
      then obtain b1 h1 k1 p1 l1 r1 where lr: "lr = AVLNode b1 h1 k1 p1 l1 r1" by (cases lr) auto
      show ?thesis using assms left l lr False by (auto simp: max_def split: if_splits)
    qed
  qed
qed

subsection \<open>Insertion and removal keep the cached fields consistent\<close>

lemma update_avl_id: "avl n \<Longrightarrow> update n = n"
  by (cases n) auto

lemma insertRecurse_avl:
  "avl t \<Longrightarrow> \<exists>t'. insertRecurse t x = Inr t' \<and> avl t' \<and> t' \<noteq> NoneNode
      \<and> (childHeight t' = childHeight t \<or> childHeight t' = childHeight t + 1)"
proof (induction t)
  case NoneNode
  show ?case by (simp add: newNode_def)
next
  case (AVLNode b h k p l r)
  have al: "avl l" and ar: "avl r" using AVLNode.prems by auto
  have bal: "childHeight r - childHeight l \<le> 1" "- 1 \<le> childHeight r - childHeight l"
    and h: "h = max (childHeight l) (childHeight r) + 1"
    using AVLNode.prems by auto
  consider (lt) "x < k" | (gt) "\<not> x < k" "k < x" | (eq) "\<not> x < k" "\<not> k < x" by blast
  then show ?case
  proof cases
    case lt
    from AVLNode.IH(1)[OF al] obtain l' where l': "insertRecurse l x = Inr l'" "avl l'"
      "childHeight l' = childHeight l \<or> childHeight l' = childHeight l + 1" by blast
    have d: "childHeight r - childHeight l' \<le> 2" "- 2 \<le> childHeight r - childHeight l'"
      using bal l'(3) by auto
    from rebalance_update_avl[OF l'(2) ar d, of b h k p] obtain t' where
      t': "rebalance (update (AVLNode b h k p l' r)) = Inr t'" "avl t'" "t' \<noteq> NoneNode"
      "childHeight t' = max (childHeight l') (childHeight r) + 1
        \<or> (\<bar>childHeight r - childHeight l'\<bar> = 2 \<and> childHeight t' = max (childHeight l') (childHeight r))"
      by blast
    have "childHeight t' = h \<or> childHeight t' = h + 1"
      using t'(4) l'(3) bal h by (auto simp: max_def split: if_splits)
    then show ?thesis using lt l'(1) t'(1-3) by (simp del: update.simps rebalance.simps)
  next
    case gt
    from AVLNode.IH(2)[OF ar] obtain r' where r': "insertRecurse r x = Inr r'" "avl r'"
      "childHeight r' = childHeight r \<or> childHeight r' = childHeight r + 1" by blast
    have d: "childHeight r' - childHeight l \<le> 2" "- 2 \<le> childHeight r' - childHeight l"
      using bal r'(3) by auto
    from rebalance_update_avl[OF al r'(2) d, of b h k p] obtain t' where
      t': "rebalance (update (AVLNode b h k p l r')) = Inr t'" "avl t'" "t' \<noteq> NoneNode"
      "childHeight t' = max (childHeight l) (childHeight r') + 1
        \<or> (\<bar>childHeight r' - childHeight l\<bar> = 2 \<and> childHeight t' = max (childHeight l) (childHeight r'))"
      by blast
    have "childHeight t' = h \<or> childHeight t' = h + 1"
      using t'(4) r'(3) bal h by (auto simp: max_def split: if_splits)
    then show ?thesis using gt r'(1) t'(1-3) by (simp del: update.simps rebalance.simps)
  next
    case eq
    have "rebalance (AVLNode b h k p l r) = Inr (AVLNode b h k p l r)"
      using rebalance_avl_id[OF AVLNode.prems] .
    then show ?thesis using eq AVLNode.prems by (simp del: rebalance.simps)
  qed
qed

lemma farthestLeft_node:
  "r \<noteq> NoneNode \<Longrightarrow> \<exists>nb nh nk np nr. farthestLeft r = AVLNode nb nh nk np NoneNode nr"
  by (induction r rule: farthestLeft.induct) auto

lemma orNode_cases: "l = NoneNode \<or> r = NoneNode \<Longrightarrow> orNode l r = l \<and> r = NoneNode \<or> orNode l r = r \<and> l = NoneNode"
  by (cases l; cases r) auto

lemma avlRemove_avl:
  "avl t \<Longrightarrow> \<exists>t'. avlRemove t x = Inr t' \<and> avl t'
      \<and> (childHeight t' = childHeight t \<or> childHeight t' = childHeight t - 1)"
proof (induction t arbitrary: x)
  case NoneNode
  show ?case by simp
next
  case (AVLNode b h k p l r)
  have al: "avl l" and ar: "avl r" using AVLNode.prems by auto
  have bal: "childHeight r - childHeight l \<le> 1" "- 1 \<le> childHeight r - childHeight l"
    and h: "h = max (childHeight l) (childHeight r) + 1"
    using AVLNode.prems by auto
  have goL: "\<exists>t'. (case avlRemove l y of Inl e \<Rightarrow> Inl e
               | Inr l' \<Rightarrow> rebalance (update (AVLNode b h k' p' l' r))) = Inr t' \<and> avl t'
             \<and> (childHeight t' = h \<or> childHeight t' = h - 1)" for y k' p'
  proof -
    from AVLNode.IH(1)[OF al, of y] obtain l' where l': "avlRemove l y = Inr l'" "avl l'"
      "childHeight l' = childHeight l \<or> childHeight l' = childHeight l - 1" by blast
    have d: "childHeight r - childHeight l' \<le> 2" "- 2 \<le> childHeight r - childHeight l'"
      using bal l'(3) by auto
    from rebalance_update_avl[OF l'(2) ar d, of b h k' p'] obtain t' where
      t': "rebalance (update (AVLNode b h k' p' l' r)) = Inr t'" "avl t'"
      "childHeight t' = max (childHeight l') (childHeight r) + 1
        \<or> (\<bar>childHeight r - childHeight l'\<bar> = 2 \<and> childHeight t' = max (childHeight l') (childHeight r))"
      by blast
    have "childHeight t' = h \<or> childHeight t' = h - 1"
      using t'(3) l'(3) bal h by (auto simp: max_def split: if_splits)
    then show ?thesis using l'(1) t'(1,2) by (simp del: update.simps rebalance.simps)
  qed
  have goR: "\<exists>t'. (case avlRemove r y of Inl e \<Rightarrow> Inl e
               | Inr r' \<Rightarrow> rebalance (update (AVLNode b h k' p' l r'))) = Inr t' \<and> avl t'
             \<and> (childHeight t' = h \<or> childHeight t' = h - 1)" for y k' p'
  proof -
    from AVLNode.IH(2)[OF ar, of y] obtain r' where r': "avlRemove r y = Inr r'" "avl r'"
      "childHeight r' = childHeight r \<or> childHeight r' = childHeight r - 1" by blast
    have d: "childHeight r' - childHeight l \<le> 2" "- 2 \<le> childHeight r' - childHeight l"
      using bal r'(3) by auto
    from rebalance_update_avl[OF al r'(2) d, of b h k' p'] obtain t' where
      t': "rebalance (update (AVLNode b h k' p' l r')) = Inr t'" "avl t'"
      "childHeight t' = max (childHeight l) (childHeight r') + 1
        \<or> (\<bar>childHeight r' - childHeight l\<bar> = 2 \<and> childHeight t' = max (childHeight l) (childHeight r'))"
      by blast
    have "childHeight t' = h \<or> childHeight t' = h - 1"
      using t'(3) r'(3) bal h by (auto simp: max_def split: if_splits)
    then show ?thesis using r'(1) t'(1,2) by (simp del: update.simps rebalance.simps)
  qed
  consider (eq2) "k = x" "l \<noteq> NoneNode" "r \<noteq> NoneNode"
    | (eq1) "k = x" "l = NoneNode \<or> r = NoneNode"
    | (gt) "k \<noteq> x" "k > x" | (lt) "k \<noteq> x" "\<not> k > x" by blast
  then show ?case
  proof cases
    case eq2
    from farthestLeft_node[OF eq2(3)] obtain nb nh nk np nr
      where fl: "farthestLeft r = AVLNode nb nh nk np NoneNode nr" by blast
    show ?thesis using eq2 fl goR[where y=nk and k'=nk and p'=np] by (simp del: update.simps rebalance.simps)
  next
    case eq1
    have o: "avl (orNode l r)" "childHeight (orNode l r) = h - 1"
      using orNode_cases[OF eq1(2)] al ar h bal childHeight_ge[OF al] childHeight_ge[OF ar]
      by (auto simp: max_def split: if_splits)
    have c: "(l \<noteq> NoneNode \<and> r \<noteq> NoneNode) = False" using eq1(2) by blast
    show ?thesis using eq1(1) o rebalance_avl_id[OF o(1)] by (simp add: c del: rebalance.simps)
  next
    case gt
    then show ?thesis using goL[where y=x and k'=k and p'=p] by (simp del: update.simps rebalance.simps)
  next
    case lt
    then have "k < x" by auto
    then show ?thesis using lt goR[where y=x and k'=k and p'=p] by (simp del: update.simps rebalance.simps)
  qed
qed

subsection \<open>Insertion and removal keep the search-tree order\<close>

lemma offsets_simps [simp]:
  "offsets NoneNode = []"
  "offsets (AVLNode b h k p l r) = offsets l @ k # offsets r"
  by (simp_all add: offsets_def)

lemma keys_simps [simp]:
  "keys NoneNode = {}"
  "keys (AVLNode b h k p l r) = insert k (keys l \<union> keys r)"
  by (auto simp: keys_def)

lemma bst_NoneNode [simp]: "bst NoneNode"
  by (simp add: bst_def)

lemma bst_node:
  "bst (AVLNode b h k p l r) \<longleftrightarrow>
     bst l \<and> bst r \<and> (\<forall>x\<in>keys l. x < k) \<and> (\<forall>y\<in>keys r. k < y)"
proof -
  have "x < y" if "x \<in> keys l" "y \<in> keys r" "\<forall>x\<in>keys l. x < k" "\<forall>y\<in>keys r. k < y" for x y
    using that less_trans[of x k y] by blast
  then show ?thesis
    unfolding bst_def keys_def by (auto simp: sorted_wrt_append)
qed

lemma entries_eq_keys: "entries t' = entries t \<Longrightarrow> keys t' = keys t"
  by (simp add: keys_def offsets_def)

lemma entries_eq_bst: "entries t' = entries t \<Longrightarrow> bst t' = bst t"
  by (simp add: bst_def offsets_def)

lemma rebalance_update_entries:
  "rebalance (update (AVLNode b h k p l r)) = Inr t' \<Longrightarrow> entries t' = entries l @ (k, p) # entries r"
  using rebalance_entries[of "update (AVLNode b h k p l r)" t'] by (simp del: rebalance.simps update.simps)

lemma rebalance_update_keys:
  "rebalance (update (AVLNode b h k p l r)) = Inr t' \<Longrightarrow> keys t' = insert k (keys l \<union> keys r)"
  using entries_eq_keys[of t' "AVLNode b h k p l r"] rebalance_update_entries[of b h k p l r t'] by simp

lemma rebalance_update_bst:
  "rebalance (update (AVLNode b h k p l r)) = Inr t' \<Longrightarrow> bst t' = bst (AVLNode b h k p l r)"
  using entries_eq_bst[of t' "AVLNode b h k p l r"] rebalance_update_entries[of b h k p l r t'] by simp

lemma insertRecurse_keys: "insertRecurse t x = Inr t' \<Longrightarrow> keys t' = insert x (keys t)"
proof (induction t arbitrary: t')
  case NoneNode
  then show ?case by (auto simp: newNode_def)
next
  case (AVLNode b h k p l r)
  consider (lt) "x < k" | (gt) "\<not> x < k" "k < x" | (eq) "\<not> x < k" "\<not> k < x" by blast
  then show ?case
  proof cases
    case lt
    then obtain l' where l': "insertRecurse l x = Inr l'" "rebalance (update (AVLNode b h k p l' r)) = Inr t'"
      using AVLNode.prems by (auto simp del: rebalance.simps update.simps split: sum.splits)
    show ?thesis using AVLNode.IH(1)[OF l'(1)] rebalance_update_keys[OF l'(2)] by auto
  next
    case gt
    then obtain r' where r': "insertRecurse r x = Inr r'" "rebalance (update (AVLNode b h k p l r')) = Inr t'"
      using AVLNode.prems by (auto simp del: rebalance.simps update.simps split: sum.splits)
    show ?thesis using AVLNode.IH(2)[OF r'(1)] rebalance_update_keys[OF r'(2)] by auto
  next
    case eq
    then have xk: "x = k" by auto
    have "rebalance (AVLNode b h k p l r) = Inr t'"
      using eq AVLNode.prems by (simp del: rebalance.simps)
    from entries_eq_keys[OF rebalance_entries[OF this]] show ?thesis using xk by auto
  qed
qed

lemma insertRecurse_bst: "insertRecurse t x = Inr t' \<Longrightarrow> bst t \<Longrightarrow> bst t'"
proof (induction t arbitrary: t')
  case NoneNode
  then show ?case by (auto simp: newNode_def bst_node)
next
  case (AVLNode b h k p l r)
  have b: "bst l" "bst r" "\<forall>x\<in>keys l. x < k" "\<forall>y\<in>keys r. k < y"
    using AVLNode.prems(2) by (auto simp: bst_node)
  consider (lt) "x < k" | (gt) "\<not> x < k" "k < x" | (eq) "\<not> x < k" "\<not> k < x" by blast
  then show ?case
  proof cases
    case lt
    then obtain l' where l': "insertRecurse l x = Inr l'" "rebalance (update (AVLNode b h k p l' r)) = Inr t'"
      using AVLNode.prems by (auto simp del: rebalance.simps update.simps split: sum.splits)
    have "bst (AVLNode b h k p l' r)"
      using AVLNode.IH(1)[OF l'(1) b(1)] insertRecurse_keys[OF l'(1)] b lt by (auto simp: bst_node)
    then show ?thesis using rebalance_update_bst[OF l'(2)] by simp
  next
    case gt
    then obtain r' where r': "insertRecurse r x = Inr r'" "rebalance (update (AVLNode b h k p l r')) = Inr t'"
      using AVLNode.prems by (auto simp del: rebalance.simps update.simps split: sum.splits)
    have "bst (AVLNode b h k p l r')"
      using AVLNode.IH(2)[OF r'(1) b(2)] insertRecurse_keys[OF r'(1)] b gt by (auto simp: bst_node)
    then show ?thesis using rebalance_update_bst[OF r'(2)] by simp
  next
    case eq
    have "rebalance (AVLNode b h k p l r) = Inr t'"
      using eq AVLNode.prems by (simp del: rebalance.simps)
    from entries_eq_bst[OF rebalance_entries[OF this]] show ?thesis using AVLNode.prems(2) by simp
  qed
qed

lemma farthestLeft_min:
  "farthestLeft r = AVLNode nb nh nk np nl nr \<Longrightarrow> bst r \<Longrightarrow>
     nk \<in> keys r \<and> (\<forall>y\<in>keys r. nk \<le> y)"
proof (induction r rule: farthestLeft.induct)
  case (1 b h k p r)
  then show ?case by (auto simp: bst_node)
next
  case (2 b h k p lb lh lk lp ll lr r)
  let ?l = "AVLNode lb lh lk lp ll lr"
  have fl: "farthestLeft ?l = AVLNode nb nh nk np nl nr" using "2.prems"(1) by simp
  have b: "bst ?l" "\<forall>x\<in>keys ?l. x < k" "\<forall>y\<in>keys r. k < y"
    using "2.prems"(2) bst_node[of b h k p ?l r] by blast+
  from "2.IH"[OF fl b(1)] have m: "nk \<in> keys ?l" "\<forall>y\<in>keys ?l. nk \<le> y" by blast+
  have "nk < k" using m(1) b(2) by blast
  then have "nk \<le> k" "\<forall>y\<in>keys r. nk \<le> y" using b(3) by auto
  then show ?case using m by auto
next
  case 3
  then show ?case by simp
qed

lemma avlRemove_keys_bst:
  "avlRemove t x = Inr t' \<Longrightarrow> bst t \<Longrightarrow> keys t' = keys t - {x} \<and> bst t'"
proof (induction t arbitrary: x t')
  case NoneNode
  then show ?case by auto
next
  case (AVLNode b h k p l r)
  have b: "bst l" "bst r" "\<forall>x\<in>keys l. x < k" "\<forall>y\<in>keys r. k < y"
    using AVLNode.prems(2) by (auto simp: bst_node)
  consider (eq2) "k = x" "l \<noteq> NoneNode" "r \<noteq> NoneNode"
    | (eq1) "k = x" "l = NoneNode \<or> r = NoneNode"
    | (gt) "k \<noteq> x" "k > x" | (lt) "k \<noteq> x" "\<not> k > x" by blast
  then show ?case
  proof cases
    case eq2
    from farthestLeft_node[OF eq2(3)] obtain nb nh nk np nr
      where fl: "farthestLeft r = AVLNode nb nh nk np NoneNode nr" by blast
    obtain r' where r': "avlRemove r nk = Inr r'" "rebalance (update (AVLNode b h nk np l r')) = Inr t'"
      using AVLNode.prems(1) eq2 fl by (auto simp del: rebalance.simps update.simps split: sum.splits)
    have m: "nk \<in> keys r" "\<forall>y\<in>keys r. nk \<le> y" using farthestLeft_min[OF fl b(2)] by auto
    have kr: "keys r' = keys r - {nk}" "bst r'" using AVLNode.IH(2)[OF r'(1) b(2)] by auto
    have kk: "k < nk" using m(1) b(4) by blast
    have "\<forall>y\<in>keys r'. nk < y" using kr(1) m(2) by auto
    moreover have "\<forall>x\<in>keys l. x < nk" using b(3) kk by auto
    ultimately have "bst (AVLNode b h nk np l r')"
      using kr(2) b(1) bst_node[of b h nk np l r'] by blast
    then have B: "bst t'" using rebalance_update_bst[OF r'(2)] by simp
    have "keys t' = insert nk (keys l \<union> keys r')" using rebalance_update_keys[OF r'(2)] .
    then have "keys t' = keys l \<union> keys r" using kr(1) m(1) by auto
    moreover have "x \<notin> keys l" "x \<notin> keys r" using b(3,4) eq2(1) by auto
    ultimately have "keys t' = keys (AVLNode b h k p l r) - {x}" using eq2(1) by auto
    then show ?thesis using B by simp
  next
    case eq1
    have c: "(l \<noteq> NoneNode \<and> r \<noteq> NoneNode) = False" using eq1(2) by blast
    have r: "rebalance (orNode l r) = Inr t'" using AVLNode.prems(1) eq1(1) by (simp add: c del: rebalance.simps)
    have e: "entries t' = entries (orNode l r)" using rebalance_entries[OF r] .
    have "keys (orNode l r) = keys l \<union> keys r" "bst (orNode l r)"
      using orNode_cases[OF eq1(2)] b by auto
    then show ?thesis using entries_eq_keys[OF e] entries_eq_bst[OF e] b eq1(1) by auto
  next
    case gt
    then obtain l' where l': "avlRemove l x = Inr l'" "rebalance (update (AVLNode b h k p l' r)) = Inr t'"
      using AVLNode.prems by (auto simp del: rebalance.simps update.simps split: sum.splits)
    have kl: "keys l' = keys l - {x}" "bst l'" using AVLNode.IH(1)[OF l'(1) b(1)] by auto
    have "bst (AVLNode b h k p l' r)" using kl b by (auto simp: bst_node)
    then show ?thesis using rebalance_update_bst[OF l'(2)] rebalance_update_keys[OF l'(2)] kl b gt by auto
  next
    case lt
    then have kx: "k < x" by auto
    then obtain r' where r': "avlRemove r x = Inr r'" "rebalance (update (AVLNode b h k p l r')) = Inr t'"
      using AVLNode.prems lt by (auto simp del: rebalance.simps update.simps split: sum.splits)
    have kr: "keys r' = keys r - {x}" "bst r'" using AVLNode.IH(2)[OF r'(1) b(2)] by auto
    have "bst (AVLNode b h k p l r')" using kr b by (auto simp: bst_node)
    then show ?thesis using rebalance_update_bst[OF r'(2)] rebalance_update_keys[OF r'(2)] kr b kx by auto
  qed
qed

subsection \<open>Every sequence of operations keeps the invariants\<close>

lemma invariants_emptyTree: "invariants emptyTree"
  by (simp add: invariants_def emptyTree_def)

lemma insertAtOffset_invariants:
  assumes "invariants t"
  shows "\<exists>t'. insertAtOffset t x = Inr t' \<and> invariants t'"
proof -
  from assms have b: "bst (rootNode t)" and a: "avl (rootNode t)" by (auto simp: invariants_def)
  from insertRecurse_avl[OF a, of x] obtain n where n: "insertRecurse (rootNode t) x = Inr n" "avl n"
    by blast
  have "bst n" using insertRecurse_bst[OF n(1) b] .
  then show ?thesis using n by (simp add: insertAtOffset_def invariants_def)
qed

lemma removeAtOffset_invariants:
  assumes "invariants t"
  shows "\<exists>t'. removeAtOffset t x = Inr t' \<and> invariants t'"
proof -
  from assms have b: "bst (rootNode t)" and a: "avl (rootNode t)" by (auto simp: invariants_def)
  from avlRemove_avl[OF a, of x] obtain n where n: "avlRemove (rootNode t) x = Inr n" "avl n"
    by blast
  have "bst n" using avlRemove_keys_bst[OF n(1) b] by simp
  then show ?thesis using n by (simp add: removeAtOffset_def invariants_def)
qed

lemma applyOp_invariants: "invariants t \<Longrightarrow> \<exists>t'. applyOp t c = Inr t' \<and> invariants t'"
  by (cases c) (simp_all add: insertAtOffset_invariants removeAtOffset_invariants)

lemma applyOps_invariants: "invariants t \<Longrightarrow> \<exists>t'. applyOps t cs = Inr t' \<and> invariants t'"
proof (induction cs arbitrary: t)
  case Nil
  then show ?case by simp
next
  case (Cons c cs)
  from applyOp_invariants[OF Cons.prems, of c] obtain t1 where t1: "applyOp t c = Inr t1" "invariants t1"
    by blast
  from Cons.IH[OF t1(2)] show ?case using t1(1) by simp
qed

lemma offset_iterNodes: "map offset (iterNodes n) = offsets n"
  by (induction n) auto

lemma avl_childHeight: "avl n \<Longrightarrow> childHeight n = heightOf n"
  by (induction n) auto

lemma avl_subtree: "avl n \<Longrightarrow> m \<in> set (iterNodes n) \<Longrightarrow> avl m \<and> m \<noteq> NoneNode"
  by (induction n) auto

lemma avl_node_facts:
  assumes "avl m" "m \<noteq> NoneNode"
  shows "balance m \<in> {- 1, 0, 1}
     \<and> height m = max (childHeight (leftChild m)) (childHeight (rightChild m)) + 1
     \<and> balance m = childHeight (rightChild m) - childHeight (leftChild m)
     \<and> height m = heightOf m
     \<and> balance m = heightOf (rightChild m) - heightOf (leftChild m)"
proof -
  obtain b h k p l r where m: "m = AVLNode b h k p l r" using assms(2) by (cases m) auto
  have a: "avl l" "avl r" "h = max (childHeight l) (childHeight r) + 1"
    "b = childHeight r - childHeight l" "- 1 \<le> b" "b \<le> 1"
    using assms(1) m by auto
  have c: "childHeight l = heightOf l" "childHeight r = heightOf r"
    using a(1,2) avl_childHeight by blast+
  have "b \<in> {- 1, 0, 1}" using a(5,6) by auto
  moreover have "h = heightOf m" using m a(3) c by simp
  moreover have "b = heightOf r - heightOf l" using a(4) c by simp
  ultimately show ?thesis using m a(3,4) by simp
qed

text \<open>
  Claim C1. Whatever sequence of insertAtOffset and _remove calls is applied to an empty
  tree, every call returns, and the tree it leaves satisfies the three node invariants:
  the offsets of \<open>iter\<close> increase strictly; every balance lies in \<open>{-1, 0, 1}\<close>; and the
  cached fields reflect the children, that is, every height is one more than the larger
  child height, an absent child counting \<open>-1\<close>, and every balance is the right child
  height minus the left one. This holds for the heights cached in the children and for
  the heights of the subtrees computed from their shape. The sequence is arbitrary, so
  this holds after each of its calls.
\<close>

theorem operations_keep_invariants:
  "\<exists>t. applyOps (emptyTree :: ('k::linorder, 'p) AVLTree) ops = Inr t
     \<and> sorted_wrt (<) (map offset (iter t))
     \<and> (\<forall>n\<in>set (iter t). balance n \<in> {- 1, 0, 1}
          \<and> height n = max (childHeight (leftChild n)) (childHeight (rightChild n)) + 1
          \<and> balance n = childHeight (rightChild n) - childHeight (leftChild n)
          \<and> height n = heightOf n
          \<and> balance n = heightOf (rightChild n) - heightOf (leftChild n))"
proof -
  from applyOps_invariants[OF invariants_emptyTree, of ops] obtain t :: "('k, 'p) AVLTree"
    where t: "applyOps emptyTree ops = Inr t" "invariants t" by blast
  have s1: "sorted_wrt (<) (map offset (iter t))"
    using t(2) by (simp add: iter_def offset_iterNodes invariants_def bst_def)
  have a: "avl (rootNode t)" using t(2) by (simp add: invariants_def)
  have s2: "\<forall>n\<in>set (iter t). balance n \<in> {- 1, 0, 1}
          \<and> height n = max (childHeight (leftChild n)) (childHeight (rightChild n)) + 1
          \<and> balance n = childHeight (rightChild n) - childHeight (leftChild n)
          \<and> height n = heightOf n
          \<and> balance n = heightOf (rightChild n) - heightOf (leftChild n)"
  proof
    fix n assume "n \<in> set (iter t)"
    then have "avl n \<and> n \<noteq> NoneNode" using avl_subtree[OF a] by (simp add: iter_def)
    then show "balance n \<in> {- 1, 0, 1}
          \<and> height n = max (childHeight (leftChild n)) (childHeight (rightChild n)) + 1
          \<and> balance n = childHeight (rightChild n) - childHeight (leftChild n)
          \<and> height n = heightOf n
          \<and> balance n = heightOf (rightChild n) - heightOf (leftChild n)"
      using avl_node_facts[of n] by blast
  qed
  show ?thesis by (rule exI[of _ t]) (intro conjI t(1) s1 s2)
qed

theorem operations_keep_invariants_witness:
  "\<exists>t. applyOps (emptyTree :: (int, unit) AVLTree)
          [Insert 20, Insert 10, Insert 5, Insert 30, Remove 10] = Inr t
     \<and> map offset (iter t) = [5, 20, 30]
     \<and> map height (iter t) = [0, 1, 0]
     \<and> map heightOf (iter t) = [0, 1, 0]
     \<and> sorted_wrt (<) (map offset (iter t))
     \<and> (\<forall>n\<in>set (iter t). balance n \<in> {- 1, 0, 1}
          \<and> height n = max (childHeight (leftChild n)) (childHeight (rightChild n)) + 1
          \<and> balance n = childHeight (rightChild n) - childHeight (leftChild n)
          \<and> height n = heightOf n
          \<and> balance n = heightOf (rightChild n) - heightOf (leftChild n))"
  using operations_keep_invariants
    [of "[Insert 20, Insert 10, Insert 5, Insert 30, Remove 10] :: int operation list"]
  by (simp add: emptyTree_def insertAtOffset_def removeAtOffset_def newNode_def iter_def)


subsection \<open>Neighbour search\<close>

lemma finite_keys [simp]: "finite (keys n)"
  by (simp add: keys_def)

lemma offsetOrNone_orNode:
  "offsetOrNone (orNode a n) = (case offsetOrNone a of None \<Rightarrow> offsetOrNone n | Some y \<Rightarrow> Some y)"
  by (cases a) auto

lemma afterRecurse_least:
  "bst n \<Longrightarrow>
     (case offsetOrNone (afterRecurse n x) of
        None \<Rightarrow> \<forall>z\<in>keys n. z \<le> x
      | Some y \<Rightarrow> y \<in> keys n \<and> x < y \<and> (\<forall>z\<in>keys n. x < z \<longrightarrow> y \<le> z))"
proof (induction n)
  case NoneNode
  show ?case by simp
next
  case (AVLNode b h k p l r)
  have bs: "bst l" "bst r" "\<forall>z\<in>keys l. z < k" "\<forall>z\<in>keys r. k < z"
    using AVLNode.prems by (auto simp: bst_node)
  consider (right) "k \<le> x" "r \<noteq> NoneNode" | (left) "x < k" | (none) "k \<le> x" "r = NoneNode"
    by fastforce
  then show ?case
  proof cases
    case right
    have e: "afterRecurse (AVLNode b h k p l r) x = afterRecurse r x" using right by simp
    have "\<forall>z\<in>keys l. z \<le> x" using bs(3) right(1) by fastforce
    then show ?thesis using AVLNode.IH(2)[OF bs(2)] right(1) unfolding e
      by (auto split: option.splits)
  next
    case left
    have e: "offsetOrNone (afterRecurse (AVLNode b h k p l r) x)
        = (case offsetOrNone (afterRecurse l x) of None \<Rightarrow> Some k | Some y \<Rightarrow> Some y)"
      using left by (auto simp: offsetOrNone_orNode split: option.splits)
    have "\<forall>z\<in>keys r. x < z" "\<forall>z\<in>keys r. k \<le> z" using bs(4) left by fastforce+
    then show ?thesis using AVLNode.IH(1)[OF bs(1)] left bs(3) unfolding e
      by (fastforce split: option.splits)
  next
    case none
    have "\<forall>z\<in>keys l. z \<le> x" using bs(3) none(1) by fastforce
    then show ?thesis using none by auto
  qed
qed

lemma beforeRecurse_greatest:
  "bst n \<Longrightarrow>
     (case offsetOrNone (beforeRecurse n x) of
        None \<Rightarrow> \<forall>z\<in>keys n. x \<le> z
      | Some y \<Rightarrow> y \<in> keys n \<and> y < x \<and> (\<forall>z\<in>keys n. z < x \<longrightarrow> z \<le> y))"
proof (induction n)
  case NoneNode
  show ?case by simp
next
  case (AVLNode b h k p l r)
  have bs: "bst l" "bst r" "\<forall>z\<in>keys l. z < k" "\<forall>z\<in>keys r. k < z"
    using AVLNode.prems by (auto simp: bst_node)
  consider (right) "k < x" | (left) "x \<le> k" "l \<noteq> NoneNode" | (none) "x \<le> k" "l = NoneNode"
    by fastforce
  then show ?case
  proof cases
    case right
    have e: "offsetOrNone (beforeRecurse (AVLNode b h k p l r) x)
        = (case offsetOrNone (beforeRecurse r x) of None \<Rightarrow> Some k | Some y \<Rightarrow> Some y)"
      using right by (auto simp: offsetOrNone_orNode split: option.splits)
    have "\<forall>z\<in>keys l. z < x" "\<forall>z\<in>keys l. z \<le> k" using bs(3) right by fastforce+
    then show ?thesis using AVLNode.IH(2)[OF bs(2)] right bs(4) unfolding e
      by (fastforce split: option.splits)
  next
    case left
    have e: "beforeRecurse (AVLNode b h k p l r) x = beforeRecurse l x" using left by auto
    have "\<forall>z\<in>keys r. x \<le> z" using bs(4) left(1) by fastforce
    then show ?thesis using AVLNode.IH(1)[OF bs(1)] left(1) unfolding e
      by (auto split: option.splits)
  next
    case none
    have "\<forall>z\<in>keys r. x \<le> z" using bs(4) none(1) by fastforce
    then show ?thesis using none by auto
  qed
qed

lemma least_as_Min:
  assumes "finite A"
    and "case r of None \<Rightarrow> \<forall>z\<in>A. z \<le> x | Some y \<Rightarrow> y \<in> A \<and> x < y \<and> (\<forall>z\<in>A. x < z \<longrightarrow> y \<le> z)"
  shows "r = (if {z\<in>A. x < z} = {} then None else Some (Min {z\<in>A. x < (z::'a::linorder)}))"
proof (cases r)
  case None
  then have "{z\<in>A. x < z} = {}" using assms(2) by fastforce
  then show ?thesis using None by simp
next
  case (Some y)
  then have y: "y \<in> {z\<in>A. x < z}" "\<forall>z\<in>{z\<in>A. x < z}. y \<le> z" using assms(2) by auto
  have "Min {z\<in>A. x < z} = y" using Min_eqI[of "{z\<in>A. x < z}" y] y assms(1) by auto
  then show ?thesis using Some y(1) by auto
qed

lemma greatest_as_Max:
  assumes "finite A"
    and "case r of None \<Rightarrow> \<forall>z\<in>A. x \<le> z | Some y \<Rightarrow> y \<in> A \<and> y < x \<and> (\<forall>z\<in>A. z < x \<longrightarrow> z \<le> y)"
  shows "r = (if {z\<in>A. z < x} = {} then None else Some (Max {z\<in>A. (z::'a::linorder) < x}))"
proof (cases r)
  case None
  then have "{z\<in>A. z < x} = {}" using assms(2) by fastforce
  then show ?thesis using None by simp
next
  case (Some y)
  then have y: "y \<in> {z\<in>A. z < x}" "\<forall>z\<in>{z\<in>A. z < x}. z \<le> y" using assms(2) by auto
  have "Max {z\<in>A. z < x} = y" using Max_eqI[of "{z\<in>A. z < x}" y] y assms(1) by auto
  then show ?thesis using Some y(1) by auto
qed

text \<open>
  Claim C2. On a tree in search-tree order, getOffsetAfter returns the smallest offset of
  the tree that is strictly greater than the query, and getOffsetBefore the largest one
  strictly less than it; an offset equal to the query is never returned, and the result
  is \<open>None\<close> when no offset qualifies, in particular on the empty tree.
\<close>

theorem neighbour_offsets:
  assumes "bst (rootNode t)"
  shows "getOffsetAfter t x =
           (if {z \<in> keys (rootNode t). x < z} = {} then None
            else Some (Min {z \<in> keys (rootNode t). x < z}))
       \<and> getOffsetBefore t x =
           (if {z \<in> keys (rootNode t). z < x} = {} then None
            else Some (Max {z \<in> keys (rootNode t). z < x}))"
  using least_as_Min[OF finite_keys afterRecurse_least[OF assms, of x]]
    greatest_as_Max[OF finite_keys beforeRecurse_greatest[OF assms, of x]]
  by (simp add: getOffsetAfter_def getOffsetBefore_def getNodeAfter_def getNodeBefore_def)

subsection \<open>Lookup, repeated insertion, removal of an absent offset\<close>

lemma entries_keys: "(x, p) \<in> set (entries n) \<Longrightarrow> x \<in> keys n"
  by (force simp: keys_def offsets_def)

lemma keys_entries: "x \<in> keys n \<Longrightarrow> \<exists>p. (x, p) \<in> set (entries n)"
  by (auto simp: keys_def offsets_def)

lemma getNodeRecurse_absent: "x \<notin> keys n \<Longrightarrow> getNodeRecurse x n = NoneNode"
  by (induction n) auto

lemma getNodeRecurse_entry:
  "bst n \<Longrightarrow> (x, p) \<in> set (entries n) \<Longrightarrow> \<exists>b h l r. getNodeRecurse x n = AVLNode b h x p l r"
proof (induction n)
  case NoneNode
  then show ?case by simp
next
  case (AVLNode b h k q l r)
  have bs: "bst l" "bst r" "\<forall>z\<in>keys l. z < k" "\<forall>z\<in>keys r. k < z"
    using AVLNode.prems(1) by (auto simp: bst_node)
  consider (here) "(x, p) = (k, q)" | (left) "(x, p) \<in> set (entries l)" | (right) "(x, p) \<in> set (entries r)"
    using AVLNode.prems(2) by auto
  then show ?case
  proof cases
    case here
    then show ?thesis by simp
  next
    case left
    then have "x < k" "l \<noteq> NoneNode" using entries_keys[OF left] bs(3) by auto
    then show ?thesis using AVLNode.IH(1)[OF bs(1) left] by auto
  next
    case right
    then have "k < x" "r \<noteq> NoneNode" using entries_keys[OF right] bs(4) by auto
    then show ?thesis using AVLNode.IH(2)[OF bs(2) right] by auto
  qed
qed

lemma insertRecurse_same: "avl n \<Longrightarrow> bst n \<Longrightarrow> x \<in> keys n \<Longrightarrow> insertRecurse n x = Inr n"
proof (induction n)
  case NoneNode
  then show ?case by simp
next
  case (AVLNode b h k p l r)
  let ?n = "AVLNode b h k p l r"
  have bs: "bst l" "bst r" "\<forall>z\<in>keys l. z < k" "\<forall>z\<in>keys r. k < z"
    using AVLNode.prems(2) by (auto simp: bst_node)
  have al: "avl l" "avl r" using AVLNode.prems(1) by auto
  have u: "rebalance (update ?n) = Inr ?n" "rebalance ?n = Inr ?n"
    using update_avl_id[OF AVLNode.prems(1)] rebalance_avl_id[OF AVLNode.prems(1)] by simp_all
  consider (lt) "x < k" | (gt) "\<not> x < k" "k < x" | (eq) "\<not> x < k" "\<not> k < x" by blast
  then show ?case
  proof cases
    case lt
    then have "x \<in> keys l" using AVLNode.prems(3) bs(4) by fastforce
    from AVLNode.IH(1)[OF al(1) bs(1) this] show ?thesis using lt u(1)
      by (simp del: update.simps rebalance.simps)
  next
    case gt
    then have "x \<in> keys r" using AVLNode.prems(3) bs(3) by fastforce
    from AVLNode.IH(2)[OF al(2) bs(2) this] show ?thesis using gt u(1)
      by (simp del: update.simps rebalance.simps)
  next
    case eq
    then show ?thesis using u(2) by (simp del: rebalance.simps)
  qed
qed

lemma avlRemove_absent: "avl n \<Longrightarrow> x \<notin> keys n \<Longrightarrow> avlRemove n x = Inr n"
proof (induction n)
  case NoneNode
  then show ?case by simp
next
  case (AVLNode b h k p l r)
  let ?n = "AVLNode b h k p l r"
  have al: "avl l" "avl r" using AVLNode.prems(1) by auto
  have nk: "k \<noteq> x" "x \<notin> keys l" "x \<notin> keys r" using AVLNode.prems(2) by auto
  have u: "rebalance (update ?n) = Inr ?n"
    using update_avl_id[OF AVLNode.prems(1)] rebalance_avl_id[OF AVLNode.prems(1)] by simp
  show ?case
  proof (cases "k > x")
    case True
    from AVLNode.IH(1)[OF al(1) nk(2)] show ?thesis using True nk(1) u
      by (simp del: update.simps rebalance.simps)
  next
    case False
    then have kx: "k < x" using nk(1) by auto
    from AVLNode.IH(2)[OF al(2) nk(3)] show ?thesis using False kx nk(1) u
      by (simp del: update.simps rebalance.simps)
  qed
qed

lemma insertRecurse_entries:
  "insertRecurse n x = Inr n' \<Longrightarrow>
     entries n' = entries n \<or> (\<exists>xs ys. entries n = xs @ ys \<and> entries n' = xs @ (x, None) # ys)"
proof (induction n arbitrary: n')
  case NoneNode
  then show ?case by (auto simp: newNode_def)
next
  case (AVLNode b h k p l r)
  consider (lt) "x < k" | (gt) "\<not> x < k" "k < x" | (eq) "\<not> x < k" "\<not> k < x" by blast
  then show ?case
  proof cases
    case lt
    then obtain l' where l': "insertRecurse l x = Inr l'" "rebalance (update (AVLNode b h k p l' r)) = Inr n'"
      using AVLNode.prems by (auto simp del: rebalance.simps update.simps split: sum.splits)
    have e: "entries n' = entries l' @ (k, p) # entries r" using rebalance_update_entries[OF l'(2)] .
    from AVLNode.IH(1)[OF l'(1)] show ?thesis
    proof
      assume "entries l' = entries l"
      then show ?thesis using e by simp
    next
      assume "\<exists>xs ys. entries l = xs @ ys \<and> entries l' = xs @ (x, None) # ys"
      then obtain xs ys where "entries l = xs @ ys" "entries l' = xs @ (x, None) # ys" by blast
      then have "entries (AVLNode b h k p l r) = xs @ (ys @ (k, p) # entries r)
          \<and> entries n' = xs @ (x, None) # (ys @ (k, p) # entries r)" using e by simp
      then show ?thesis by blast
    qed
  next
    case gt
    then obtain r' where r': "insertRecurse r x = Inr r'" "rebalance (update (AVLNode b h k p l r')) = Inr n'"
      using AVLNode.prems by (auto simp del: rebalance.simps update.simps split: sum.splits)
    have e: "entries n' = entries l @ (k, p) # entries r'" using rebalance_update_entries[OF r'(2)] .
    from AVLNode.IH(2)[OF r'(1)] show ?thesis
    proof
      assume "entries r' = entries r"
      then show ?thesis using e by simp
    next
      assume "\<exists>xs ys. entries r = xs @ ys \<and> entries r' = xs @ (x, None) # ys"
      then obtain xs ys where "entries r = xs @ ys" "entries r' = xs @ (x, None) # ys" by blast
      then have "entries (AVLNode b h k p l r) = (entries l @ (k, p) # xs) @ ys
          \<and> entries n' = (entries l @ (k, p) # xs) @ (x, None) # ys" using e by simp
      then show ?thesis by blast
    qed
  next
    case eq
    have "rebalance (AVLNode b h k p l r) = Inr n'"
      using eq AVLNode.prems by (simp del: rebalance.simps)
    from rebalance_entries[OF this] show ?thesis by simp
  qed
qed

subsection \<open>The choice of rotation\<close>

lemma rotateRightRight_spec:
  "r \<noteq> NoneNode \<Longrightarrow>
     rotateRightRight (AVLNode b h k p l r) = Inr (specSingleLeft (AVLNode b h k p l r))"
  by (cases r) simp_all

lemma rotateLeftLeft_spec:
  "l \<noteq> NoneNode \<Longrightarrow>
     rotateLeftLeft (AVLNode b h k p l r) = Inr (specSingleRight (AVLNode b h k p l r))"
  by (cases l) simp_all

lemma rotateRightLeft_spec:
  "r \<noteq> NoneNode \<Longrightarrow> leftChild r \<noteq> NoneNode \<Longrightarrow>
     rotateRightLeft (AVLNode b h k p l r) = Inr (specRightThenLeft (AVLNode b h k p l r))"
  by (cases r; cases "leftChild r") simp_all

lemma rotateLeftRight_spec:
  "l \<noteq> NoneNode \<Longrightarrow> rightChild l \<noteq> NoneNode \<Longrightarrow>
     rotateLeftRight (AVLNode b h k p l r) = Inr (specLeftThenRight (AVLNode b h k p l r))"
  by (cases l; cases "rightChild l") simp_all

lemma rebalanceRotate_right_heavy:
  assumes "avl l" "avl r" "b = childHeight r - childHeight l" "1 < b"
  shows "\<exists>rb. readBalance r = Inr rb
           \<and> rebalanceRotate (AVLNode b h k p l r) =
               Inr (if 0 \<le> rb then specSingleLeft (AVLNode b h k p l r)
                    else specRightThenLeft (AVLNode b h k p l r))"
proof -
  have "r \<noteq> NoneNode" using assms(3,4) childHeight_ge[OF assms(1)] by auto
  then obtain rb rh rk rp rl rr where r: "r = AVLNode rb rh rk rp rl rr" by (cases r) auto
  show ?thesis
  proof (cases "0 \<le> rb")
    case True
    then show ?thesis using assms(4) r rotateRightRight_spec[of r b h k p l]
      by (simp del: rotateRightRight.simps specSingleLeft.simps)
  next
    case False
    then have "rl \<noteq> NoneNode" using assms(2) r childHeight_ge[of rr] by auto
    then show ?thesis using False assms(4) r rotateRightLeft_spec[of r b h k p l]
      by (simp del: rotateRightLeft.simps specRightThenLeft.simps)
  qed
qed

lemma rebalanceRotate_left_heavy:
  assumes "avl l" "avl r" "b = childHeight r - childHeight l" "b < - 1"
  shows "\<exists>lb. readBalance l = Inr lb
           \<and> rebalanceRotate (AVLNode b h k p l r) =
               Inr (if lb \<le> 0 then specSingleRight (AVLNode b h k p l r)
                    else specLeftThenRight (AVLNode b h k p l r))"
proof -
  have "l \<noteq> NoneNode" using assms(3,4) childHeight_ge[OF assms(2)] by auto
  then obtain lb lh lk lp ll lr where l: "l = AVLNode lb lh lk lp ll lr" by (cases l) auto
  show ?thesis
  proof (cases "lb \<le> 0")
    case True
    then show ?thesis using assms(4) l rotateLeftLeft_spec[of l b h k p r]
      by (simp del: rotateLeftLeft.simps specSingleRight.simps)
  next
    case False
    then have "lr \<noteq> NoneNode" using assms(1) l childHeight_ge[of ll] by auto
    then show ?thesis using False assms(4) l rotateLeftRight_spec[of l b h k p r]
      by (simp del: rotateLeftRight.simps specLeftThenRight.simps)
  qed
qed

lemma rebalance_right_heavy:
  assumes "avl l" "avl r" "b = childHeight r - childHeight l" "1 < b"
  shows "\<exists>rb. readBalance r = Inr rb
           \<and> rebalance (AVLNode b h k p l r) =
               rebalanceCheck (if 0 \<le> rb then specSingleLeft (AVLNode b h k p l r)
                    else specRightThenLeft (AVLNode b h k p l r))"
proof -
  from rebalanceRotate_right_heavy[OF assms, of h k p] obtain rb where
    rb: "readBalance r = Inr rb"
    "rebalanceRotate (AVLNode b h k p l r) =
       Inr (if 0 \<le> rb then specSingleLeft (AVLNode b h k p l r)
            else specRightThenLeft (AVLNode b h k p l r))" by blast
  have "rebalance (AVLNode b h k p l r) =
      rebalanceCheck (if 0 \<le> rb then specSingleLeft (AVLNode b h k p l r)
            else specRightThenLeft (AVLNode b h k p l r))"
    using rb(2) by (simp del: rebalanceRotate.simps specSingleLeft.simps specRightThenLeft.simps)
  then show ?thesis using rb(1) by blast
qed

lemma rebalance_left_heavy:
  assumes "avl l" "avl r" "b = childHeight r - childHeight l" "b < - 1"
  shows "\<exists>lb. readBalance l = Inr lb
           \<and> rebalance (AVLNode b h k p l r) =
               rebalanceCheck (if lb \<le> 0 then specSingleRight (AVLNode b h k p l r)
                    else specLeftThenRight (AVLNode b h k p l r))"
proof -
  from rebalanceRotate_left_heavy[OF assms, of h k p] obtain lb where
    lb: "readBalance l = Inr lb"
    "rebalanceRotate (AVLNode b h k p l r) =
       Inr (if lb \<le> 0 then specSingleRight (AVLNode b h k p l r)
            else specLeftThenRight (AVLNode b h k p l r))" by blast
  have "rebalance (AVLNode b h k p l r) =
      rebalanceCheck (if lb \<le> 0 then specSingleRight (AVLNode b h k p l r)
            else specLeftThenRight (AVLNode b h k p l r))"
    using lb(2) by (simp del: rebalanceRotate.simps specSingleRight.simps specLeftThenRight.simps)
  then show ?thesis using lb(1) by blast
qed

lemma specSingleLeft_cache:
  "specSingleLeft (AVLNode b h k p l r) = specSingleLeft (AVLNode b' h' k p l r)"
  if "r \<noteq> NoneNode" using that by (cases r) simp_all

lemma specSingleRight_cache:
  "specSingleRight (AVLNode b h k p l r) = specSingleRight (AVLNode b' h' k p l r)"
  if "l \<noteq> NoneNode" using that by (cases l) simp_all

lemma specSingleRight_node: "n \<noteq> NoneNode \<Longrightarrow> specSingleRight n \<noteq> NoneNode"
  by (induction n rule: specSingleRight.induct) (simp_all add: Let_def)

lemma specSingleLeft_node: "n \<noteq> NoneNode \<Longrightarrow> specSingleLeft n \<noteq> NoneNode"
  by (induction n rule: specSingleLeft.induct) (simp_all add: Let_def)

lemma specRightThenLeft_cache:
  "r \<noteq> NoneNode \<Longrightarrow>
     specRightThenLeft (AVLNode b h k p l r) = specRightThenLeft (AVLNode b' h' k p l r)"
  using specSingleLeft_cache[of "specSingleRight r" b h k p l b' h'] specSingleRight_node[of r]
  by simp

lemma specLeftThenRight_cache:
  "l \<noteq> NoneNode \<Longrightarrow>
     specLeftThenRight (AVLNode b h k p l r) = specLeftThenRight (AVLNode b' h' k p l r)"
  using specSingleRight_cache[of "specSingleLeft l" b h k p r b' h'] specSingleLeft_node[of l]
  by simp

lemma rebalance_right_heavy_two:
  assumes "avl l" "avl r" "b = childHeight r - childHeight l" "b = 2"
  shows "\<exists>rb. readBalance r = Inr rb
           \<and> rebalance (AVLNode b h k p l r) =
               Inr (if 0 \<le> rb then specSingleLeft (AVLNode b h k p l r)
                    else specRightThenLeft (AVLNode b h k p l r))"
proof -
  let ?h = "max (childHeight l) (childHeight r) + 1"
  have u: "update (AVLNode b h k p l r) = AVLNode b ?h k p l r" using assms(3) by simp
  have b1: "1 < b" using assms(4) by simp
  have rn: "r \<noteq> NoneNode" using assms(3,4) childHeight_ge[OF assms(1)] by auto
  from rebalance_right_heavy[OF assms(1-3) b1, of ?h k p] obtain rb where
    rb: "readBalance r = Inr rb"
    "rebalance (AVLNode b ?h k p l r) =
       rebalanceCheck (if 0 \<le> rb then specSingleLeft (AVLNode b ?h k p l r)
            else specRightThenLeft (AVLNode b ?h k p l r))" by blast
  let ?S = "if 0 \<le> rb then specSingleLeft (AVLNode b h k p l r)
            else specRightThenLeft (AVLNode b h k p l r)"
  have s: "(if 0 \<le> rb then specSingleLeft (AVLNode b ?h k p l r)
            else specRightThenLeft (AVLNode b ?h k p l r)) = ?S"
    using specSingleLeft_cache[OF rn, of b ?h k p l b h]
      specRightThenLeft_cache[OF rn, of b ?h k p l b h] by simp
  have d: "childHeight r - childHeight l \<le> 2" "- 2 \<le> childHeight r - childHeight l"
    using assms(3,4) by auto
  from rebalance_update_avl[OF assms(1,2) d, of b h k p] obtain t' where
    t': "rebalance (AVLNode b ?h k p l r) = Inr t'" unfolding u by blast
  have c: "rebalanceCheck ?S = Inr t'" using rb(2) t' unfolding s by simp
  have "t' = ?S" using rebalanceCheck_id[OF c] .
  then have "rebalanceCheck ?S = Inr ?S" using c by simp
  moreover from rebalance_right_heavy[OF assms(1-3) b1, of h k p] rb(1)
  have "rebalance (AVLNode b h k p l r) = rebalanceCheck ?S" by auto
  ultimately show ?thesis using rb(1) by auto
qed

lemma rebalance_left_heavy_two:
  assumes "avl l" "avl r" "b = childHeight r - childHeight l" "b = - 2"
  shows "\<exists>lb. readBalance l = Inr lb
           \<and> rebalance (AVLNode b h k p l r) =
               Inr (if lb \<le> 0 then specSingleRight (AVLNode b h k p l r)
                    else specLeftThenRight (AVLNode b h k p l r))"
proof -
  let ?h = "max (childHeight l) (childHeight r) + 1"
  have u: "update (AVLNode b h k p l r) = AVLNode b ?h k p l r" using assms(3) by simp
  have b1: "b < - 1" using assms(4) by simp
  have ln: "l \<noteq> NoneNode" using assms(3,4) childHeight_ge[OF assms(2)] by auto
  from rebalance_left_heavy[OF assms(1-3) b1, of ?h k p] obtain lb where
    lb: "readBalance l = Inr lb"
    "rebalance (AVLNode b ?h k p l r) =
       rebalanceCheck (if lb \<le> 0 then specSingleRight (AVLNode b ?h k p l r)
            else specLeftThenRight (AVLNode b ?h k p l r))" by blast
  let ?S = "if lb \<le> 0 then specSingleRight (AVLNode b h k p l r)
            else specLeftThenRight (AVLNode b h k p l r)"
  have s: "(if lb \<le> 0 then specSingleRight (AVLNode b ?h k p l r)
            else specLeftThenRight (AVLNode b ?h k p l r)) = ?S"
    using specSingleRight_cache[OF ln, of b ?h k p r b h]
      specLeftThenRight_cache[OF ln, of b ?h k p r b h] by simp
  have d: "childHeight r - childHeight l \<le> 2" "- 2 \<le> childHeight r - childHeight l"
    using assms(3,4) by auto
  from rebalance_update_avl[OF assms(1,2) d, of b h k p] obtain t' where
    t': "rebalance (AVLNode b ?h k p l r) = Inr t'" unfolding u by blast
  have c: "rebalanceCheck ?S = Inr t'" using lb(2) t' unfolding s by simp
  have "t' = ?S" using rebalanceCheck_id[OF c] .
  then have "rebalanceCheck ?S = Inr ?S" using c by simp
  moreover from rebalance_left_heavy[OF assms(1-3) b1, of h k p] lb(1)
  have "rebalance (AVLNode b h k p l r) = rebalanceCheck ?S" by auto
  ultimately show ?thesis using lb(1) by auto
qed

lemma insert_unwind:
  assumes "avl (AVLNode b h k p l r)"
  shows "(x < k \<longrightarrow> (\<exists>l'. insertRecurse l x = Inr l' \<and> avl l'
             \<and> \<bar>childHeight r - childHeight l'\<bar> \<le> 2
             \<and> insertRecurse (AVLNode b h k p l r) x =
                 rebalance (AVLNode (childHeight r - childHeight l')
                   (max (childHeight l') (childHeight r) + 1) k p l' r)))
       \<and> (k < x \<longrightarrow> (\<exists>r'. insertRecurse r x = Inr r' \<and> avl r'
             \<and> \<bar>childHeight r' - childHeight l\<bar> \<le> 2
             \<and> insertRecurse (AVLNode b h k p l r) x =
                 rebalance (AVLNode (childHeight r' - childHeight l)
                   (max (childHeight l) (childHeight r') + 1) k p l r')))"
proof (intro conjI impI)
  have a: "avl l" "avl r" "- 1 \<le> childHeight r - childHeight l" "childHeight r - childHeight l \<le> 1"
    using assms by auto
  {
    assume lt: "x < k"
    from insertRecurse_avl[OF a(1), of x] obtain l' where l': "insertRecurse l x = Inr l'" "avl l'"
      "childHeight l' = childHeight l \<or> childHeight l' = childHeight l + 1" by blast
    have "\<bar>childHeight r - childHeight l'\<bar> \<le> 2" using l'(3) a(3,4) by auto
    moreover have "insertRecurse (AVLNode b h k p l r) x =
                 rebalance (AVLNode (childHeight r - childHeight l')
                   (max (childHeight l') (childHeight r) + 1) k p l' r)"
      using lt l'(1) by (simp del: rebalance.simps)
    ultimately show "\<exists>l'. insertRecurse l x = Inr l' \<and> avl l'
             \<and> \<bar>childHeight r - childHeight l'\<bar> \<le> 2
             \<and> insertRecurse (AVLNode b h k p l r) x =
                 rebalance (AVLNode (childHeight r - childHeight l')
                   (max (childHeight l') (childHeight r) + 1) k p l' r)"
      using l'(1,2) by blast
  }
  {
    assume gt: "k < x"
    from insertRecurse_avl[OF a(2), of x] obtain r' where r': "insertRecurse r x = Inr r'" "avl r'"
      "childHeight r' = childHeight r \<or> childHeight r' = childHeight r + 1" by blast
    have "\<bar>childHeight r' - childHeight l\<bar> \<le> 2" using r'(3) a(3,4) by auto
    moreover have "insertRecurse (AVLNode b h k p l r) x =
                 rebalance (AVLNode (childHeight r' - childHeight l)
                   (max (childHeight l) (childHeight r') + 1) k p l r')"
      using gt r'(1) not_less_iff_gr_or_eq[of x k] by (simp del: rebalance.simps)
    ultimately show "\<exists>r'. insertRecurse r x = Inr r' \<and> avl r'
             \<and> \<bar>childHeight r' - childHeight l\<bar> \<le> 2
             \<and> insertRecurse (AVLNode b h k p l r) x =
                 rebalance (AVLNode (childHeight r' - childHeight l)
                   (max (childHeight l) (childHeight r') + 1) k p l r')"
      using r'(1,2) by blast
  }
qed

lemma remove_unwind:
  assumes "avl (AVLNode b h k p l r)"
  shows "(x < k \<longrightarrow> (\<exists>l'. avlRemove l x = Inr l' \<and> avl l'
             \<and> \<bar>childHeight r - childHeight l'\<bar> \<le> 2
             \<and> avlRemove (AVLNode b h k p l r) x =
                 rebalance (AVLNode (childHeight r - childHeight l')
                   (max (childHeight l') (childHeight r) + 1) k p l' r)))
       \<and> (k < x \<longrightarrow> (\<exists>r'. avlRemove r x = Inr r' \<and> avl r'
             \<and> \<bar>childHeight r' - childHeight l\<bar> \<le> 2
             \<and> avlRemove (AVLNode b h k p l r) x =
                 rebalance (AVLNode (childHeight r' - childHeight l)
                   (max (childHeight l) (childHeight r') + 1) k p l r')))
       \<and> (l \<noteq> NoneNode \<and> r \<noteq> NoneNode \<longrightarrow>
            (\<exists>nb nh nk np nl nr r'. farthestLeft r = AVLNode nb nh nk np nl nr
             \<and> avlRemove r nk = Inr r' \<and> avl r'
             \<and> \<bar>childHeight r' - childHeight l\<bar> \<le> 2
             \<and> avlRemove (AVLNode b h k p l r) k =
                 rebalance (AVLNode (childHeight r' - childHeight l)
                   (max (childHeight l) (childHeight r') + 1) nk np l r')))"
proof (intro conjI impI)
  have a: "avl l" "avl r" "- 1 \<le> childHeight r - childHeight l" "childHeight r - childHeight l \<le> 1"
    using assms by auto
  {
    assume lt: "x < k"
    from avlRemove_avl[OF a(1), of x] obtain l' where l': "avlRemove l x = Inr l'" "avl l'"
      "childHeight l' = childHeight l \<or> childHeight l' = childHeight l - 1" by blast
    have "\<bar>childHeight r - childHeight l'\<bar> \<le> 2" using l'(3) a(3,4) by auto
    moreover have "avlRemove (AVLNode b h k p l r) x =
                 rebalance (AVLNode (childHeight r - childHeight l')
                   (max (childHeight l') (childHeight r) + 1) k p l' r)"
      using lt l'(1) less_imp_neq[of x k] by (auto simp del: rebalance.simps)
    ultimately show "\<exists>l'. avlRemove l x = Inr l' \<and> avl l'
             \<and> \<bar>childHeight r - childHeight l'\<bar> \<le> 2
             \<and> avlRemove (AVLNode b h k p l r) x =
                 rebalance (AVLNode (childHeight r - childHeight l')
                   (max (childHeight l') (childHeight r) + 1) k p l' r)"
      using l'(1,2) by blast
  }
  {
    assume gt: "k < x"
    from avlRemove_avl[OF a(2), of x] obtain r' where r': "avlRemove r x = Inr r'" "avl r'"
      "childHeight r' = childHeight r \<or> childHeight r' = childHeight r - 1" by blast
    have "\<bar>childHeight r' - childHeight l\<bar> \<le> 2" using r'(3) a(3,4) by auto
    moreover have "avlRemove (AVLNode b h k p l r) x =
                 rebalance (AVLNode (childHeight r' - childHeight l)
                   (max (childHeight l) (childHeight r') + 1) k p l r')"
      using gt r'(1) less_imp_neq[of k x] not_less_iff_gr_or_eq[of k x]
      by (auto simp del: rebalance.simps)
    ultimately show "\<exists>r'. avlRemove r x = Inr r' \<and> avl r'
             \<and> \<bar>childHeight r' - childHeight l\<bar> \<le> 2
             \<and> avlRemove (AVLNode b h k p l r) x =
                 rebalance (AVLNode (childHeight r' - childHeight l)
                   (max (childHeight l) (childHeight r') + 1) k p l r')"
      using r'(1,2) by blast
  }
  {
    assume two: "l \<noteq> NoneNode \<and> r \<noteq> NoneNode"
    from farthestLeft_node[of r] two obtain nb nh nk np nr
      where fl: "farthestLeft r = AVLNode nb nh nk np NoneNode nr" by blast
    from avlRemove_avl[OF a(2), of nk] obtain r' where r': "avlRemove r nk = Inr r'" "avl r'"
      "childHeight r' = childHeight r \<or> childHeight r' = childHeight r - 1" by blast
    have "\<bar>childHeight r' - childHeight l\<bar> \<le> 2" using r'(3) a(3,4) by auto
    moreover have "avlRemove (AVLNode b h k p l r) k =
                 rebalance (AVLNode (childHeight r' - childHeight l)
                   (max (childHeight l) (childHeight r') + 1) nk np l r')"
      using two fl r'(1) by (simp del: rebalance.simps)
    ultimately show "\<exists>nb nh nk np nl nr r'. farthestLeft r = AVLNode nb nh nk np nl nr
             \<and> avlRemove r nk = Inr r' \<and> avl r'
             \<and> \<bar>childHeight r' - childHeight l\<bar> \<le> 2
             \<and> avlRemove (AVLNode b h k p l r) k =
                 rebalance (AVLNode (childHeight r' - childHeight l)
                   (max (childHeight l) (childHeight r') + 1) nk np l r')"
      using fl r'(1,2) by blast
  }
qed

lemma singleRight_closed_form:
  "specSingleRight (AVLNode b h k p (AVLNode lb lh lk lp ll lr) r) =
     AVLNode (max (childHeight lr) (childHeight r) + 1 - childHeight ll)
       (max (childHeight ll) (max (childHeight lr) (childHeight r) + 1) + 1) lk lp ll
       (AVLNode (childHeight r - childHeight lr) (max (childHeight lr) (childHeight r) + 1) k p lr r)
   \<and> rotateLeftLeft (AVLNode b h k p (AVLNode lb lh lk lp ll lr) r) =
     Inr (specSingleRight (AVLNode b h k p (AVLNode lb lh lk lp ll lr) r))"
  by (simp add: Let_def)

text \<open>
  Claim C4. Take a node whose children are consistent and whose balance is computed from
  them; these are the nodes _rebalance receives while insert and remove unwind. If the
  balance exceeds 1, _rebalance returns the check of the single left rotation when the
  right child's balance is at least 0, and of the right-then-left double rotation
  otherwise; if the balance is below -1, the check of the single right rotation when the
  left child's balance is at most 0, and of the left-then-right double rotation otherwise;
  in between it returns the node as it is. At balance 2 or -2 the check passes and the
  rotated subtree is returned. The single right rotation makes the left child the root,
  hangs the former right child of the promoted node as the left child of the demoted one,
  and computes the demoted node's height before the promoted node's, which depends on it;
  _rotateLeftLeft is that rotation, and _rotateRightRight its mirror image. On a
  consistent tree, each step of insert and of
  remove below a node returns what _rebalance makes of that node with its updated child,
  whose children are consistent and whose heights differ by at most 2.
\<close>

theorem rebalance_rotation_choice:
  assumes "avl l" "avl r" "b = childHeight r - childHeight l"
  shows "(1 < b \<longrightarrow> (\<exists>rb. readBalance r = Inr rb
            \<and> rebalance (AVLNode b h k p l r) =
                rebalanceCheck (if 0 \<le> rb then specSingleLeft (AVLNode b h k p l r)
                     else specRightThenLeft (AVLNode b h k p l r))))
       \<and> (b = 2 \<longrightarrow> (\<exists>rb. readBalance r = Inr rb
            \<and> rebalance (AVLNode b h k p l r) =
                Inr (if 0 \<le> rb then specSingleLeft (AVLNode b h k p l r)
                     else specRightThenLeft (AVLNode b h k p l r))))
       \<and> (b < - 1 \<longrightarrow> (\<exists>lb. readBalance l = Inr lb
            \<and> rebalance (AVLNode b h k p l r) =
                rebalanceCheck (if lb \<le> 0 then specSingleRight (AVLNode b h k p l r)
                     else specLeftThenRight (AVLNode b h k p l r))))
       \<and> (b = - 2 \<longrightarrow> (\<exists>lb. readBalance l = Inr lb
            \<and> rebalance (AVLNode b h k p l r) =
                Inr (if lb \<le> 0 then specSingleRight (AVLNode b h k p l r)
                     else specLeftThenRight (AVLNode b h k p l r))))
       \<and> (- 1 \<le> b \<and> b \<le> 1 \<longrightarrow> rebalance (AVLNode b h k p l r) = Inr (AVLNode b h k p l r))
       \<and> (\<forall>lb lh lk lp ll lr. l = AVLNode lb lh lk lp ll lr \<longrightarrow>
            specSingleRight (AVLNode b h k p l r) =
              AVLNode (max (childHeight lr) (childHeight r) + 1 - childHeight ll)
                (max (childHeight ll) (max (childHeight lr) (childHeight r) + 1) + 1) lk lp ll
                (AVLNode (childHeight r - childHeight lr)
                   (max (childHeight lr) (childHeight r) + 1) k p lr r)
            \<and> rotateLeftLeft (AVLNode b h k p l r) = Inr (specSingleRight (AVLNode b h k p l r)))
       \<and> (avl (AVLNode b h k p l r) \<longrightarrow> (\<forall>x.
            (x < k \<longrightarrow> (\<exists>l'. insertRecurse l x = Inr l' \<and> avl l'
               \<and> \<bar>childHeight r - childHeight l'\<bar> \<le> 2
               \<and> insertRecurse (AVLNode b h k p l r) x =
                   rebalance (AVLNode (childHeight r - childHeight l')
                     (max (childHeight l') (childHeight r) + 1) k p l' r)))
          \<and> (k < x \<longrightarrow> (\<exists>r'. insertRecurse r x = Inr r' \<and> avl r'
               \<and> \<bar>childHeight r' - childHeight l\<bar> \<le> 2
               \<and> insertRecurse (AVLNode b h k p l r) x =
                   rebalance (AVLNode (childHeight r' - childHeight l)
                     (max (childHeight l) (childHeight r') + 1) k p l r')))
          \<and> (x < k \<longrightarrow> (\<exists>l'. avlRemove l x = Inr l' \<and> avl l'
               \<and> \<bar>childHeight r - childHeight l'\<bar> \<le> 2
               \<and> avlRemove (AVLNode b h k p l r) x =
                   rebalance (AVLNode (childHeight r - childHeight l')
                     (max (childHeight l') (childHeight r) + 1) k p l' r)))
          \<and> (k < x \<longrightarrow> (\<exists>r'. avlRemove r x = Inr r' \<and> avl r'
               \<and> \<bar>childHeight r' - childHeight l\<bar> \<le> 2
               \<and> avlRemove (AVLNode b h k p l r) x =
                   rebalance (AVLNode (childHeight r' - childHeight l)
                     (max (childHeight l) (childHeight r') + 1) k p l r')))
          \<and> (l \<noteq> NoneNode \<and> r \<noteq> NoneNode \<longrightarrow>
               (\<exists>nb nh nk np nl nr r'. farthestLeft r = AVLNode nb nh nk np nl nr
                \<and> avlRemove r nk = Inr r' \<and> avl r'
                \<and> \<bar>childHeight r' - childHeight l\<bar> \<le> 2
                \<and> avlRemove (AVLNode b h k p l r) k =
                    rebalance (AVLNode (childHeight r' - childHeight l)
                      (max (childHeight l) (childHeight r') + 1) nk np l r')))))
       \<and> (\<forall>rb rh rk rp rl rr. r = AVLNode rb rh rk rp rl rr \<longrightarrow>
            specSingleLeft (AVLNode b h k p l r) =
              AVLNode (childHeight rr - (max (childHeight l) (childHeight rl) + 1))
                (max (max (childHeight l) (childHeight rl) + 1) (childHeight rr) + 1) rk rp
                (AVLNode (childHeight rl - childHeight l)
                   (max (childHeight l) (childHeight rl) + 1) k p l rl) rr
            \<and> rotateRightRight (AVLNode b h k p l r) = Inr (specSingleLeft (AVLNode b h k p l r)))"
proof -
  have c1: "1 < b \<longrightarrow> (\<exists>rb. readBalance r = Inr rb
            \<and> rebalance (AVLNode b h k p l r) =
                rebalanceCheck (if 0 \<le> rb then specSingleLeft (AVLNode b h k p l r)
                     else specRightThenLeft (AVLNode b h k p l r)))"
    using rebalance_right_heavy[OF assms] by blast
  have c2: "b = 2 \<longrightarrow> (\<exists>rb. readBalance r = Inr rb
            \<and> rebalance (AVLNode b h k p l r) =
                Inr (if 0 \<le> rb then specSingleLeft (AVLNode b h k p l r)
                     else specRightThenLeft (AVLNode b h k p l r)))"
    using rebalance_right_heavy_two[OF assms] by blast
  have c3: "b < - 1 \<longrightarrow> (\<exists>lb. readBalance l = Inr lb
            \<and> rebalance (AVLNode b h k p l r) =
                rebalanceCheck (if lb \<le> 0 then specSingleRight (AVLNode b h k p l r)
                     else specLeftThenRight (AVLNode b h k p l r)))"
    using rebalance_left_heavy[OF assms] by blast
  have c4: "b = - 2 \<longrightarrow> (\<exists>lb. readBalance l = Inr lb
            \<and> rebalance (AVLNode b h k p l r) =
                Inr (if lb \<le> 0 then specSingleRight (AVLNode b h k p l r)
                     else specLeftThenRight (AVLNode b h k p l r)))"
    using rebalance_left_heavy_two[OF assms] by blast
  have c5: "- 1 \<le> b \<and> b \<le> 1 \<longrightarrow> rebalance (AVLNode b h k p l r) = Inr (AVLNode b h k p l r)"
    by simp
  have c6: "\<forall>lb lh lk lp ll lr. l = AVLNode lb lh lk lp ll lr \<longrightarrow>
            specSingleRight (AVLNode b h k p l r) =
              AVLNode (max (childHeight lr) (childHeight r) + 1 - childHeight ll)
                (max (childHeight ll) (max (childHeight lr) (childHeight r) + 1) + 1) lk lp ll
                (AVLNode (childHeight r - childHeight lr)
                   (max (childHeight lr) (childHeight r) + 1) k p lr r)
            \<and> rotateLeftLeft (AVLNode b h k p l r) = Inr (specSingleRight (AVLNode b h k p l r))"
    using singleRight_closed_form[of b h k p _ _ _ _ _ _ r] by blast
  have c7: "avl (AVLNode b h k p l r) \<longrightarrow> (\<forall>x.
            (x < k \<longrightarrow> (\<exists>l'. insertRecurse l x = Inr l' \<and> avl l'
               \<and> \<bar>childHeight r - childHeight l'\<bar> \<le> 2
               \<and> insertRecurse (AVLNode b h k p l r) x =
                   rebalance (AVLNode (childHeight r - childHeight l')
                     (max (childHeight l') (childHeight r) + 1) k p l' r)))
          \<and> (k < x \<longrightarrow> (\<exists>r'. insertRecurse r x = Inr r' \<and> avl r'
               \<and> \<bar>childHeight r' - childHeight l\<bar> \<le> 2
               \<and> insertRecurse (AVLNode b h k p l r) x =
                   rebalance (AVLNode (childHeight r' - childHeight l)
                     (max (childHeight l) (childHeight r') + 1) k p l r')))
          \<and> (x < k \<longrightarrow> (\<exists>l'. avlRemove l x = Inr l' \<and> avl l'
               \<and> \<bar>childHeight r - childHeight l'\<bar> \<le> 2
               \<and> avlRemove (AVLNode b h k p l r) x =
                   rebalance (AVLNode (childHeight r - childHeight l')
                     (max (childHeight l') (childHeight r) + 1) k p l' r)))
          \<and> (k < x \<longrightarrow> (\<exists>r'. avlRemove r x = Inr r' \<and> avl r'
               \<and> \<bar>childHeight r' - childHeight l\<bar> \<le> 2
               \<and> avlRemove (AVLNode b h k p l r) x =
                   rebalance (AVLNode (childHeight r' - childHeight l)
                     (max (childHeight l) (childHeight r') + 1) k p l r')))
          \<and> (l \<noteq> NoneNode \<and> r \<noteq> NoneNode \<longrightarrow>
               (\<exists>nb nh nk np nl nr r'. farthestLeft r = AVLNode nb nh nk np nl nr
                \<and> avlRemove r nk = Inr r' \<and> avl r'
                \<and> \<bar>childHeight r' - childHeight l\<bar> \<le> 2
                \<and> avlRemove (AVLNode b h k p l r) k =
                    rebalance (AVLNode (childHeight r' - childHeight l)
                      (max (childHeight l) (childHeight r') + 1) nk np l r'))))"
  proof (intro impI allI)
    fix x
    assume a: "avl (AVLNode b h k p l r)"
    show "(x < k \<longrightarrow> (\<exists>l'. insertRecurse l x = Inr l' \<and> avl l'
               \<and> \<bar>childHeight r - childHeight l'\<bar> \<le> 2
               \<and> insertRecurse (AVLNode b h k p l r) x =
                   rebalance (AVLNode (childHeight r - childHeight l')
                     (max (childHeight l') (childHeight r) + 1) k p l' r)))
          \<and> (k < x \<longrightarrow> (\<exists>r'. insertRecurse r x = Inr r' \<and> avl r'
               \<and> \<bar>childHeight r' - childHeight l\<bar> \<le> 2
               \<and> insertRecurse (AVLNode b h k p l r) x =
                   rebalance (AVLNode (childHeight r' - childHeight l)
                     (max (childHeight l) (childHeight r') + 1) k p l r')))
          \<and> (x < k \<longrightarrow> (\<exists>l'. avlRemove l x = Inr l' \<and> avl l'
               \<and> \<bar>childHeight r - childHeight l'\<bar> \<le> 2
               \<and> avlRemove (AVLNode b h k p l r) x =
                   rebalance (AVLNode (childHeight r - childHeight l')
                     (max (childHeight l') (childHeight r) + 1) k p l' r)))
          \<and> (k < x \<longrightarrow> (\<exists>r'. avlRemove r x = Inr r' \<and> avl r'
               \<and> \<bar>childHeight r' - childHeight l\<bar> \<le> 2
               \<and> avlRemove (AVLNode b h k p l r) x =
                   rebalance (AVLNode (childHeight r' - childHeight l)
                     (max (childHeight l) (childHeight r') + 1) k p l r')))
          \<and> (l \<noteq> NoneNode \<and> r \<noteq> NoneNode \<longrightarrow>
               (\<exists>nb nh nk np nl nr r'. farthestLeft r = AVLNode nb nh nk np nl nr
                \<and> avlRemove r nk = Inr r' \<and> avl r'
                \<and> \<bar>childHeight r' - childHeight l\<bar> \<le> 2
                \<and> avlRemove (AVLNode b h k p l r) k =
                    rebalance (AVLNode (childHeight r' - childHeight l)
                      (max (childHeight l) (childHeight r') + 1) nk np l r')))"
      using insert_unwind[OF a, of x] remove_unwind[OF a, of x] by (intro conjI) blast+
  qed
  have c8: "(\<forall>rb rh rk rp rl rr. r = AVLNode rb rh rk rp rl rr \<longrightarrow>
         specSingleLeft (AVLNode b h k p l r) =
           AVLNode (childHeight rr - (max (childHeight l) (childHeight rl) + 1))
             (max (max (childHeight l) (childHeight rl) + 1) (childHeight rr) + 1) rk rp
             (AVLNode (childHeight rl - childHeight l)
                (max (childHeight l) (childHeight rl) + 1) k p l rl) rr
         \<and> rotateRightRight (AVLNode b h k p l r) = Inr (specSingleLeft (AVLNode b h k p l r)))"
    by (simp add: Let_def)
  show ?thesis by (intro conjI c1 c2 c3 c4 c5 c6 c7 c8)
qed

theorem rebalance_rotation_choice_witness:
  "avl (NoneNode :: (int, unit) node)
   \<and> avl (AVLNode 1 1 20 None NoneNode (AVLNode 0 0 30 None NoneNode NoneNode) :: (int, unit) node)
   \<and> (2::int) = childHeight (AVLNode 1 1 20 None NoneNode (AVLNode 0 0 30 None NoneNode NoneNode) :: (int, unit) node)
               - childHeight (NoneNode :: (int, unit) node)
   \<and> rebalance (AVLNode 2 2 10 None NoneNode
         (AVLNode 1 1 20 None NoneNode (AVLNode 0 0 30 None NoneNode NoneNode)) :: (int, unit) node)
       = Inr (AVLNode 0 1 20 None (AVLNode 0 0 10 None NoneNode NoneNode)
                (AVLNode 0 0 30 None NoneNode NoneNode))
   \<and> avl (AVLNode (- 1) 1 10 None (AVLNode 0 0 5 None NoneNode NoneNode) NoneNode :: (int, unit) node)
   \<and> (- 2::int) = childHeight (NoneNode :: (int, unit) node)
         - childHeight (AVLNode (- 1) 1 10 None (AVLNode 0 0 5 None NoneNode NoneNode) NoneNode
             :: (int, unit) node)
   \<and> rebalance (AVLNode (- 2) 2 20 None
         (AVLNode (- 1) 1 10 None (AVLNode 0 0 5 None NoneNode NoneNode) NoneNode) NoneNode
           :: (int, unit) node)
       = Inr (AVLNode 0 1 10 None (AVLNode 0 0 5 None NoneNode NoneNode)
                (AVLNode 0 0 20 None NoneNode NoneNode))
   \<and> avl (AVLNode (- 1) 1 20 None (AVLNode 0 0 10 None NoneNode NoneNode) NoneNode
         :: (int, unit) node)
   \<and> (5::int) < 20
   \<and> insertRecurse (AVLNode (- 1) 1 20 None (AVLNode 0 0 10 None NoneNode NoneNode) NoneNode
         :: (int, unit) node) 5
       = Inr (AVLNode 0 1 10 None (AVLNode 0 0 5 None NoneNode NoneNode)
                (AVLNode 0 0 20 None NoneNode NoneNode))"
proof -
  let ?R = "AVLNode 1 1 20 None NoneNode (AVLNode 0 0 30 None NoneNode NoneNode) :: (int, unit) node"
  let ?L = "AVLNode (- 1) 1 10 None (AVLNode 0 0 5 None NoneNode NoneNode) NoneNode :: (int, unit) node"
  have a0: "avl (NoneNode :: (int, unit) node)" by simp
  have a1: "avl ?R" by simp
  have a2: "(2::int) = childHeight ?R - childHeight (NoneNode :: (int, unit) node)" by simp
  have a3: "avl ?L" by simp
  have a4: "(- 2::int) = childHeight (NoneNode :: (int, unit) node) - childHeight ?L" by simp
  note T1 = rebalance_rotation_choice[OF a0 a1 a2, of 2 10 None]
  note T2 = rebalance_rotation_choice[OF a3 a0 a4, of 2 20 None]
  from T1 have "(2::int) = 2 \<longrightarrow> (\<exists>rb. readBalance ?R = Inr rb
      \<and> rebalance (AVLNode 2 2 10 None NoneNode ?R) =
          Inr (if 0 \<le> rb then specSingleLeft (AVLNode 2 2 10 None NoneNode ?R)
               else specRightThenLeft (AVLNode 2 2 10 None NoneNode ?R)))"
    by (rule conjunct2[THEN conjunct1])
  then have r1: "rebalance (AVLNode 2 2 10 None NoneNode ?R) =
      Inr (AVLNode 0 1 20 None (AVLNode 0 0 10 None NoneNode NoneNode)
             (AVLNode 0 0 30 None NoneNode NoneNode))"
    by simp
  from T2 have "(- 2::int) = - 2 \<longrightarrow> (\<exists>lb. readBalance ?L = Inr lb
      \<and> rebalance (AVLNode (- 2) 2 20 None ?L NoneNode) =
          Inr (if lb \<le> 0 then specSingleRight (AVLNode (- 2) 2 20 None ?L NoneNode)
               else specLeftThenRight (AVLNode (- 2) 2 20 None ?L NoneNode)))"
    by (rule conjunct2[THEN conjunct2, THEN conjunct2, THEN conjunct1])
  then have r2: "rebalance (AVLNode (- 2) 2 20 None ?L NoneNode) =
      Inr (AVLNode 0 1 10 None (AVLNode 0 0 5 None NoneNode NoneNode)
             (AVLNode 0 0 20 None NoneNode NoneNode))"
    by simp
  let ?M = "AVLNode 0 0 10 None NoneNode NoneNode :: (int, unit) node"
  have a5: "avl ?M" by simp
  have a6: "(- 1::int) = childHeight (NoneNode :: (int, unit) node) - childHeight ?M" by simp
  have a7: "avl (AVLNode (- 1) 1 20 None ?M NoneNode)" by simp
  have a8: "(5::int) < 20" by simp
  note T3 = rebalance_rotation_choice[OF a5 a0 a6, of 1 20 None]
  from T3 have "avl (AVLNode (- 1) 1 20 None ?M NoneNode) \<longrightarrow> (\<forall>x.
            (x < 20 \<longrightarrow> (\<exists>l'. insertRecurse ?M x = Inr l' \<and> avl l'
               \<and> \<bar>childHeight (NoneNode :: (int, unit) node) - childHeight l'\<bar> \<le> 2
               \<and> insertRecurse (AVLNode (- 1) 1 20 None ?M NoneNode) x =
                   rebalance (AVLNode (childHeight (NoneNode :: (int, unit) node) - childHeight l')
                     (max (childHeight l') (childHeight (NoneNode :: (int, unit) node)) + 1)
                     20 None l' NoneNode)))
          \<and> (20 < x \<longrightarrow> (\<exists>r'. insertRecurse NoneNode x = Inr r' \<and> avl r'
               \<and> \<bar>childHeight r' - childHeight ?M\<bar> \<le> 2
               \<and> insertRecurse (AVLNode (- 1) 1 20 None ?M NoneNode) x =
                   rebalance (AVLNode (childHeight r' - childHeight ?M)
                     (max (childHeight ?M) (childHeight r') + 1) 20 None ?M r')))
          \<and> (x < 20 \<longrightarrow> (\<exists>l'. avlRemove ?M x = Inr l' \<and> avl l'
               \<and> \<bar>childHeight (NoneNode :: (int, unit) node) - childHeight l'\<bar> \<le> 2
               \<and> avlRemove (AVLNode (- 1) 1 20 None ?M NoneNode) x =
                   rebalance (AVLNode (childHeight (NoneNode :: (int, unit) node) - childHeight l')
                     (max (childHeight l') (childHeight (NoneNode :: (int, unit) node)) + 1)
                     20 None l' NoneNode)))
          \<and> (20 < x \<longrightarrow> (\<exists>r'. avlRemove NoneNode x = Inr r' \<and> avl r'
               \<and> \<bar>childHeight r' - childHeight ?M\<bar> \<le> 2
               \<and> avlRemove (AVLNode (- 1) 1 20 None ?M NoneNode) x =
                   rebalance (AVLNode (childHeight r' - childHeight ?M)
                     (max (childHeight ?M) (childHeight r') + 1) 20 None ?M r')))
          \<and> (?M \<noteq> NoneNode \<and> (NoneNode :: (int, unit) node) \<noteq> NoneNode \<longrightarrow>
               (\<exists>nb nh nk np nl nr r'. farthestLeft (NoneNode :: (int, unit) node)
                    = AVLNode nb nh nk np nl nr
                \<and> avlRemove NoneNode nk = Inr r' \<and> avl r'
                \<and> \<bar>childHeight r' - childHeight ?M\<bar> \<le> 2
                \<and> avlRemove (AVLNode (- 1) 1 20 None ?M NoneNode) 20 =
                    rebalance (AVLNode (childHeight r' - childHeight ?M)
                      (max (childHeight ?M) (childHeight r') + 1) nk np ?M r'))))"
    by (rule conjunct2[THEN conjunct2, THEN conjunct2, THEN conjunct2, THEN conjunct2,
          THEN conjunct2, THEN conjunct1])
  from this[THEN mp, OF a7, THEN spec, of 5, THEN conjunct1, THEN mp, OF a8]
  have r3: "insertRecurse (AVLNode (- 1) 1 20 None ?M NoneNode) 5
       = Inr (AVLNode 0 1 10 None (AVLNode 0 0 5 None NoneNode NoneNode)
                (AVLNode 0 0 20 None NoneNode NoneNode))"
    by (simp add: newNode_def)
  show ?thesis by (intro conjI a0 a1 a2 r1 a3 a4 r2 a7 a8 r3)
qed

subsection \<open>The claims about lookup and faults\<close>

lemma insertAtOffset_keys:
  "insertAtOffset t x = Inr t' \<Longrightarrow> keys (rootNode t') = insert x (keys (rootNode t))"
  by (auto simp: insertAtOffset_def split: sum.splits dest: insertRecurse_keys)



lemma getNodeByOffset_absent: "x \<notin> keys (rootNode t) \<Longrightarrow> getNodeByOffset t x = NoneNode"
  by (simp add: getNodeByOffset_def getNodeRecurse_absent)

lemma insertAtOffset_same:
  "invariants t \<Longrightarrow> x \<in> keys (rootNode t) \<Longrightarrow> insertAtOffset t x = Inr t"
  by (simp add: invariants_def insertAtOffset_def insertRecurse_same)

lemma removeAtOffset_absent:
  "invariants t \<Longrightarrow> x \<notin> keys (rootNode t) \<Longrightarrow> removeAtOffset t x = Inr t"
  by (simp add: invariants_def removeAtOffset_def avlRemove_absent)


text \<open>
  Claim C6. On a tree satisfying the invariants, inserting an offset that is present
  returns the very same tree, with shape, offsets, cached fields and payloads unchanged;
  and inserting any offset twice gives the tree that inserting it once gives.
\<close>

theorem insert_idempotent:
  assumes "invariants t"
  shows "(x \<in> keys (rootNode t) \<longrightarrow> insertAtOffset t x = Inr t)
       \<and> (\<exists>t'. insertAtOffset t x = Inr t' \<and> insertAtOffset t' x = Inr t')"
proof
  show "x \<in> keys (rootNode t) \<longrightarrow> insertAtOffset t x = Inr t"
    using insertAtOffset_same[OF assms] by blast
next
  from insertAtOffset_invariants[OF assms, of x] obtain t'
    where t': "insertAtOffset t x = Inr t'" "invariants t'" by blast
  have "x \<in> keys (rootNode t')" using insertAtOffset_keys[OF t'(1)] by simp
  then have "insertAtOffset t' x = Inr t'" using insertAtOffset_same[OF t'(2)] by blast
  then show "\<exists>t'. insertAtOffset t x = Inr t' \<and> insertAtOffset t' x = Inr t'" using t'(1) by blast
qed

text \<open>
  Claim C7. On a tree satisfying the invariants, _remove of an offset that is not in the
  tree returns the tree unchanged; the empty tree is one such tree.
\<close>

theorem remove_absent_unchanged:
  assumes "invariants t" and "x \<notin> keys (rootNode t)"
  shows "removeAtOffset t x = Inr t"
  using removeAtOffset_absent[OF assms] .

lemma rotateRightRight_error: "rotateRightRight m = Inl e \<Longrightarrow> e = AttributeError"
  by (induction m rule: rotateRightRight.induct) auto

lemma rotateLeftLeft_error: "rotateLeftLeft m = Inl e \<Longrightarrow> e = AttributeError"
  by (induction m rule: rotateLeftLeft.induct) auto

lemma rotateRightLeft_error: "rotateRightLeft m = Inl e \<Longrightarrow> e = AttributeError"
  by (cases m) (auto split: sum.splits dest: rotateRightRight_error rotateLeftLeft_error)

lemma rotateLeftRight_error: "rotateLeftRight m = Inl e \<Longrightarrow> e = AttributeError"
  by (cases m) (auto split: sum.splits dest: rotateRightRight_error rotateLeftLeft_error)

lemma readBalance_error: "readBalance m = Inl e \<Longrightarrow> e = AttributeError"
  by (cases m) auto

lemma rebalanceRotate_error: "rebalanceRotate n = Inl e \<Longrightarrow> e = AttributeError"
  by (cases n) (auto split: if_splits sum.splits
      dest: rotateRightRight_error rotateLeftLeft_error rotateRightLeft_error rotateLeftRight_error
        readBalance_error
      simp del: rotateRightRight.simps rotateLeftLeft.simps rotateRightLeft.simps rotateLeftRight.simps)

lemma rebalance_TimespanException:
  "rebalance n = Inl TimespanException \<longleftrightarrow>
     (\<exists>b h k p l r. rebalanceRotate n = Inr (AVLNode b h k p l r) \<and> (b < - 1 \<or> 1 < b))"
proof (cases n)
  case NoneNode
  then show ?thesis by simp
next
  case (AVLNode b h k p l r)
  show ?thesis
  proof (cases "rebalanceRotate n")
    case (Inl e)
    then show ?thesis using AVLNode rebalanceRotate_error[OF Inl] by (simp del: rebalanceRotate.simps)
  next
    case (Inr m)
    then show ?thesis using AVLNode by (cases m) (auto simp del: rebalanceRotate.simps)
  qed
qed

lemma getNodeByOffset_payload:
  "bst (rootNode t) \<Longrightarrow> (x, p) \<in> set (entries (rootNode t)) \<Longrightarrow>
     getNodeByOffset t x \<noteq> NoneNode \<and> payload (getNodeByOffset t x) = p"
  using getNodeRecurse_entry[of "rootNode t" x p] by (auto simp: getNodeByOffset_def)

text \<open>
  Claim C9. An insertAtOffset that returns leaves the left-to-right sequence of
  (offset, payload) pairs as it was, or adds exactly one pair, the new offset with payload
  \<open>None\<close>, somewhere in it: no existing offset or payload is written, whatever rotations
  happen. Hence, on a tree satisfying the invariants, every offset that was present is
  still found afterwards, with the payload it had.
\<close>

theorem insert_keeps_offsets_and_payloads:
  assumes "insertAtOffset t x = Inr t'"
  shows "(entries (rootNode t') = entries (rootNode t)
          \<or> (\<exists>xs ys. entries (rootNode t) = xs @ ys
                \<and> entries (rootNode t') = xs @ (x, None) # ys))
       \<and> (invariants t \<longrightarrow>
            (\<forall>k\<in>keys (rootNode t). getNodeByOffset t' k \<noteq> NoneNode
                \<and> payload (getNodeByOffset t' k) = payload (getNodeByOffset t k)))"
proof
  from assms obtain n where n: "insertRecurse (rootNode t) x = Inr n" "rootNode t' = n"
    by (auto simp: insertAtOffset_def split: sum.splits)
  show fr: "entries (rootNode t') = entries (rootNode t)
          \<or> (\<exists>xs ys. entries (rootNode t) = xs @ ys
                \<and> entries (rootNode t') = xs @ (x, None) # ys)"
    using insertRecurse_entries[OF n(1)] n(2) by simp
  show "invariants t \<longrightarrow>
            (\<forall>k\<in>keys (rootNode t). getNodeByOffset t' k \<noteq> NoneNode
                \<and> payload (getNodeByOffset t' k) = payload (getNodeByOffset t k))"
  proof (intro impI ballI)
    fix k
    assume inv: "invariants t" and k: "k \<in> keys (rootNode t)"
    have b: "bst (rootNode t)" using inv by (simp add: invariants_def)
    have b': "bst (rootNode t')" using insertRecurse_bst[OF n(1) b] n(2) by simp
    from keys_entries[OF k] obtain p where p: "(k, p) \<in> set (entries (rootNode t))" by blast
    have "set (entries (rootNode t)) \<subseteq> set (entries (rootNode t'))" using fr by auto
    then have p': "(k, p) \<in> set (entries (rootNode t'))" using p by blast
    show "getNodeByOffset t' k \<noteq> NoneNode
            \<and> payload (getNodeByOffset t' k) = payload (getNodeByOffset t k)"
      using getNodeByOffset_payload[OF b p] getNodeByOffset_payload[OF b' p'] by simp
  qed
qed

text \<open>
  Claim C8. Inserting 20, 10, 5, 30 into an empty tree: after 20 and 10 the root is 20
  with left child 10; inserting 5 makes node 20 left-heavy by 2 with a left-heavy left
  child, so _rebalance applies the single right rotation and 10 becomes the root; after
  30 the root is 10 with height 2, its left child is the leaf 5, and its right subtree is
  rooted at 20 with the single right child 30.
\<close>

theorem scenario_A:
  "applyOps (emptyTree :: (int, 'p) AVLTree) [Insert 20, Insert 10] =
     Inr \<lparr>rootNode = AVLNode (- 1) 1 20 None (AVLNode 0 0 10 None NoneNode NoneNode) NoneNode\<rparr>
   \<and> update (AVLNode (- 1) 1 20 None
        (AVLNode (- 1) 1 10 None (AVLNode 0 0 5 None NoneNode NoneNode) NoneNode) NoneNode
          :: (int, 'p) node) =
       AVLNode (- 2) 2 20 None
        (AVLNode (- 1) 1 10 None (AVLNode 0 0 5 None NoneNode NoneNode) NoneNode) NoneNode
   \<and> rebalanceRotate (AVLNode (- 2) 2 20 None
        (AVLNode (- 1) 1 10 None (AVLNode 0 0 5 None NoneNode NoneNode) NoneNode) NoneNode
          :: (int, 'p) node) =
       rotateLeftLeft (AVLNode (- 2) 2 20 None
        (AVLNode (- 1) 1 10 None (AVLNode 0 0 5 None NoneNode NoneNode) NoneNode) NoneNode)
   \<and> applyOps (emptyTree :: (int, 'p) AVLTree) [Insert 20, Insert 10, Insert 5] =
     Inr \<lparr>rootNode = AVLNode 0 1 10 None (AVLNode 0 0 5 None NoneNode NoneNode)
            (AVLNode 0 0 20 None NoneNode NoneNode)\<rparr>
   \<and> applyOps (emptyTree :: (int, 'p) AVLTree) [Insert 20, Insert 10, Insert 5, Insert 30] =
     Inr \<lparr>rootNode = AVLNode 1 2 10 None (AVLNode 0 0 5 None NoneNode NoneNode)
            (AVLNode 1 1 20 None NoneNode (AVLNode 0 0 30 None NoneNode NoneNode))\<rparr>"
  by (simp add: emptyTree_def insertAtOffset_def newNode_def)

lemma digit_chars:
  "char_of (48::nat) = CHR ''0''" "char_of (49::nat) = CHR ''1''" "char_of (50::nat) = CHR ''2''"
  "char_of (51::nat) = CHR ''3''" "char_of (52::nat) = CHR ''4''" "char_of (53::nat) = CHR ''5''"
  "char_of (54::nat) = CHR ''6''" "char_of (55::nat) = CHR ''7''" "char_of (56::nat) = CHR ''8''"
  "char_of (57::nat) = CHR ''9''"
  by code_simp+

text \<open>
  Claim C10. AVLTree.debug returns the empty string on an empty tree, and on a tree with a
  root node the lines of the root's _getDebugPieces joined by newlines; for the tree of
  scenario A these are four lines.
\<close>

theorem debug_of_tree:
  "debug showK (emptyTree :: ('k, 'p) AVLTree) = ''''
   \<and> debug showK \<lparr>rootNode = AVLNode b h k p l r\<rparr> =
       joinLines (getDebugPieces showK (AVLNode b h k p l r :: ('k, 'p) node))
   \<and> debug showInt \<lparr>rootNode = AVLNode 1 2 10 None (AVLNode 0 0 5 None NoneNode NoneNode)
            (AVLNode 1 1 20 None NoneNode (AVLNode 0 0 30 None NoneNode NoneNode)) :: (int, 'p) node\<rparr> =
       ''<Node: Start:10 Height:2 L:0 R:1>'' @ [CHR 0x0A, CHR 0x09]
       @ ''L: <Node: Start:5 Height:0 L:None R:None>'' @ [CHR 0x0A, CHR 0x09]
       @ ''R: <Node: Start:20 Height:1 L:None R:0>'' @ [CHR 0x0A, CHR 0x09, CHR 0x09]
       @ ''R: <Node: Start:30 Height:0 L:None R:None>''"
  by (simp add: debug_def debugNode_def emptyTree_def showInt_def digit_chars)

subsection \<open>With fresh cached fields no attribute read fails\<close>

lemma avl_cached: "avl n \<Longrightarrow> cached n"
  by (induction n) auto

lemma cached_height_ge: "cached n \<Longrightarrow> - 1 \<le> childHeight n"
  by (induction n) auto

lemma rebalanceCheck_cached:
  "cached n \<Longrightarrow> n \<noteq> NoneNode \<Longrightarrow>
     rebalanceCheck n = Inr n \<or> rebalanceCheck n = Inl TimespanException"
  by (cases n) auto

lemma rebalanceRotate_cached:
  assumes "cached n"
  shows "\<exists>m. rebalanceRotate n = Inr m \<and> cached m \<and> (n \<noteq> NoneNode \<longrightarrow> m \<noteq> NoneNode)"
proof (cases n)
  case NoneNode
  then show ?thesis by simp
next
  case (AVLNode b h k p l r)
  have c: "cached l" "cached r" "b = childHeight r - childHeight l"
    using assms AVLNode by auto
  consider (bal) "- 1 \<le> b" "b \<le> 1" | (right) "1 < b" | (left) "b < - 1" by linarith
  then show ?thesis
  proof cases
    case bal
    then show ?thesis using AVLNode assms by simp
  next
    case right
    have "r \<noteq> NoneNode" using right c(3) cached_height_ge[OF c(1)] by auto
    then obtain rb rh rk rp rl rr where r: "r = AVLNode rb rh rk rp rl rr" by (cases r) auto
    show ?thesis
    proof (cases "0 \<le> rb")
      case True
      then show ?thesis using AVLNode right r c by auto
    next
      case False
      then have "rl \<noteq> NoneNode" using c(2) r cached_height_ge[of rr] by auto
      then obtain b1 h1 k1 p1 l1 r1 where rl: "rl = AVLNode b1 h1 k1 p1 l1 r1" by (cases rl) auto
      show ?thesis using AVLNode right r rl c False by auto
    qed
  next
    case left
    have "l \<noteq> NoneNode" using left c(3) cached_height_ge[OF c(2)] by auto
    then obtain lb lh lk lp ll lr where l: "l = AVLNode lb lh lk lp ll lr" by (cases l) auto
    show ?thesis
    proof (cases "lb \<le> 0")
      case True
      then show ?thesis using AVLNode left l c by auto
    next
      case False
      then have "lr \<noteq> NoneNode" using c(1) l cached_height_ge[of ll] by auto
      then obtain b1 h1 k1 p1 l1 r1 where lr: "lr = AVLNode b1 h1 k1 p1 l1 r1" by (cases lr) auto
      show ?thesis using AVLNode left l lr c False by auto
    qed
  qed
qed

lemma rebalance_cached:
  assumes "cached n"
  shows "(\<exists>m. rebalance n = Inr m \<and> cached m) \<or> rebalance n = Inl TimespanException"
proof (cases n)
  case NoneNode
  then show ?thesis by simp
next
  case (AVLNode b h k p l r)
  from rebalanceRotate_cached[OF assms] obtain m
    where m: "rebalanceRotate n = Inr m" "cached m" "m \<noteq> NoneNode" using AVLNode by auto
  show ?thesis using rebalanceCheck_cached[OF m(2,3)] m(1,2) AVLNode
    by (auto simp del: rebalanceRotate.simps)
qed

lemma cached_update: "cached l \<Longrightarrow> cached r \<Longrightarrow> cached (update (AVLNode b h k p l r))"
  by simp

lemma insertRecurse_cached:
  "cached n \<Longrightarrow>
     (\<exists>n'. insertRecurse n x = Inr n' \<and> cached n') \<or> insertRecurse n x = Inl TimespanException"
proof (induction n)
  case NoneNode
  show ?case by (simp add: newNode_def)
next
  case (AVLNode b h k p l r)
  have c: "cached l" "cached r" using AVLNode.prems by auto
  consider (lt) "x < k" | (gt) "\<not> x < k" "k < x" | (eq) "\<not> x < k" "\<not> k < x" by blast
  then show ?case
  proof cases
    case lt
    from AVLNode.IH(1)[OF c(1)] show ?thesis
    proof
      assume "\<exists>l'. insertRecurse l x = Inr l' \<and> cached l'"
      then obtain l' where l': "insertRecurse l x = Inr l'" "cached l'" by blast
      from rebalance_cached[OF cached_update[OF l'(2) c(2), of b h k p]] show ?thesis
        using lt l'(1) by (simp del: update.simps rebalance.simps)
    next
      assume "insertRecurse l x = Inl TimespanException"
      then show ?thesis using lt by simp
    qed
  next
    case gt
    from AVLNode.IH(2)[OF c(2)] show ?thesis
    proof
      assume "\<exists>r'. insertRecurse r x = Inr r' \<and> cached r'"
      then obtain r' where r': "insertRecurse r x = Inr r'" "cached r'" by blast
      from rebalance_cached[OF cached_update[OF c(1) r'(2), of b h k p]] show ?thesis
        using gt r'(1) by (simp del: update.simps rebalance.simps)
    next
      assume "insertRecurse r x = Inl TimespanException"
      then show ?thesis using gt by simp
    qed
  next
    case eq
    from rebalance_cached[OF AVLNode.prems] show ?thesis using eq by (simp del: rebalance.simps)
  qed
qed

lemma avlRemove_cached:
  "cached n \<Longrightarrow>
     (\<exists>n'. avlRemove n x = Inr n' \<and> cached n') \<or> avlRemove n x = Inl TimespanException"
proof (induction n arbitrary: x)
  case NoneNode
  show ?case by simp
next
  case (AVLNode b h k p l r)
  have c: "cached l" "cached r" using AVLNode.prems by auto
  have goL: "(\<exists>n'. (case avlRemove l y of Inl e \<Rightarrow> Inl e
               | Inr l' \<Rightarrow> rebalance (update (AVLNode b h k' p' l' r))) = Inr n' \<and> cached n')
           \<or> (case avlRemove l y of Inl e \<Rightarrow> Inl e
               | Inr l' \<Rightarrow> rebalance (update (AVLNode b h k' p' l' r))) = Inl TimespanException"
    for y k' p'
  proof -
    from AVLNode.IH(1)[OF c(1), of y] show ?thesis
    proof
      assume "\<exists>l'. avlRemove l y = Inr l' \<and> cached l'"
      then obtain l' where l': "avlRemove l y = Inr l'" "cached l'" by blast
      from rebalance_cached[OF cached_update[OF l'(2) c(2), of b h k' p']] show ?thesis
        using l'(1) by (simp del: update.simps rebalance.simps)
    next
      assume "avlRemove l y = Inl TimespanException"
      then show ?thesis by simp
    qed
  qed
  have goR: "(\<exists>n'. (case avlRemove r y of Inl e \<Rightarrow> Inl e
               | Inr r' \<Rightarrow> rebalance (update (AVLNode b h k' p' l r'))) = Inr n' \<and> cached n')
           \<or> (case avlRemove r y of Inl e \<Rightarrow> Inl e
               | Inr r' \<Rightarrow> rebalance (update (AVLNode b h k' p' l r'))) = Inl TimespanException"
    for y k' p'
  proof -
    from AVLNode.IH(2)[OF c(2), of y] show ?thesis
    proof
      assume "\<exists>r'. avlRemove r y = Inr r' \<and> cached r'"
      then obtain r' where r': "avlRemove r y = Inr r'" "cached r'" by blast
      from rebalance_cached[OF cached_update[OF c(1) r'(2), of b h k' p']] show ?thesis
        using r'(1) by (simp del: update.simps rebalance.simps)
    next
      assume "avlRemove r y = Inl TimespanException"
      then show ?thesis by simp
    qed
  qed
  consider (eq2) "k = x" "l \<noteq> NoneNode" "r \<noteq> NoneNode"
    | (eq1) "k = x" "l = NoneNode \<or> r = NoneNode"
    | (gt) "k \<noteq> x" "k > x" | (lt) "k \<noteq> x" "\<not> k > x" by blast
  then show ?case
  proof cases
    case eq2
    from farthestLeft_node[OF eq2(3)] obtain nb nh nk np nr
      where fl: "farthestLeft r = AVLNode nb nh nk np NoneNode nr" by blast
    show ?thesis using eq2 fl goR[where y=nk and k'=nk and p'=np]
      by (simp del: update.simps rebalance.simps)
  next
    case eq1
    have cc: "(l \<noteq> NoneNode \<and> r \<noteq> NoneNode) = False" using eq1(2) by blast
    have "cached (orNode l r)" using orNode_cases[OF eq1(2)] c by auto
    from rebalance_cached[OF this] show ?thesis using eq1(1)
      by (simp add: cc del: rebalance.simps)
  next
    case gt
    then show ?thesis using goL[where y=x and k'=k and p'=p]
      by (simp del: update.simps rebalance.simps)
  next
    case lt
    then have "k < x" by auto
    then show ?thesis using lt goR[where y=x and k'=k and p'=p]
      by (simp del: update.simps rebalance.simps)
  qed
qed

lemma insertAtOffset_cached:
  "cached (rootNode t) \<Longrightarrow> insertAtOffset t x = Inl e \<Longrightarrow> e = TimespanException"
  using insertRecurse_cached[of "rootNode t" x]
  by (auto simp: insertAtOffset_def split: sum.splits)

lemma removeAtOffset_cached:
  "cached (rootNode t) \<Longrightarrow> removeAtOffset t x = Inl e \<Longrightarrow> e = TimespanException"
  using avlRemove_cached[of "rootNode t" x]
  by (auto simp: removeAtOffset_def split: sum.splits)

text \<open>
  Claim C5. _rebalance raises TimespanException exactly when the node that roots the
  subtree after the rotation step has a balance outside \<open>[-1, 1]\<close>, and on a tree whose
  cached fields are fresh this is the only exception insertAtOffset and _remove can end
  with. Every sequence of
  insertAtOffset and _remove calls on an empty tree returns without any exception, and on
  the tree it leaves every further insert and remove returns too: inserting a present
  offset and removing an absent one return the tree as it is, and looking up an absent
  offset, or a neighbour in an empty tree, returns \<open>None\<close>.
\<close>

theorem no_fault_on_reachable_trees:
  "(\<forall>n :: ('k::linorder, 'p) node. rebalance n = Inl TimespanException \<longleftrightarrow>
       (\<exists>b h k p l r. rebalanceRotate n = Inr (AVLNode b h k p l r) \<and> (b < - 1 \<or> 1 < b)))
   \<and> (\<forall>(u :: ('k, 'p) AVLTree) y e. cached (rootNode u) \<longrightarrow>
         (insertAtOffset u y = Inl e \<longrightarrow> e = TimespanException)
         \<and> (removeAtOffset u y = Inl e \<longrightarrow> e = TimespanException))
   \<and> (\<exists>t. applyOps (emptyTree :: ('k, 'p) AVLTree) ops = Inr t
        \<and> (\<forall>x. (\<exists>t'. insertAtOffset t x = Inr t') \<and> (\<exists>t'. removeAtOffset t x = Inr t')
              \<and> (x \<in> keys (rootNode t) \<longrightarrow> insertAtOffset t x = Inr t)
              \<and> (x \<notin> keys (rootNode t) \<longrightarrow>
                    removeAtOffset t x = Inr t \<and> getNodeByOffset t x = NoneNode
                    \<and> getOffsetAfter \<lparr>rootNode = NoneNode :: ('k, 'p) node\<rparr> x = None
                    \<and> getOffsetBefore \<lparr>rootNode = NoneNode :: ('k, 'p) node\<rparr> x = None)))"
proof (intro conjI allI)
  fix n :: "('k, 'p) node"
  show "rebalance n = Inl TimespanException \<longleftrightarrow>
       (\<exists>b h k p l r. rebalanceRotate n = Inr (AVLNode b h k p l r) \<and> (b < - 1 \<or> 1 < b))"
    by (rule rebalance_TimespanException)
next
  fix u :: "('k, 'p) AVLTree" and y e
  show "cached (rootNode u) \<longrightarrow>
         (insertAtOffset u y = Inl e \<longrightarrow> e = TimespanException)
         \<and> (removeAtOffset u y = Inl e \<longrightarrow> e = TimespanException)"
    using insertAtOffset_cached[of u y e] removeAtOffset_cached[of u y e] by blast
next
  from applyOps_invariants[OF invariants_emptyTree, of ops] obtain t :: "('k, 'p) AVLTree"
    where t: "applyOps emptyTree ops = Inr t" "invariants t" by blast
  have "(\<exists>t'. insertAtOffset t x = Inr t') \<and> (\<exists>t'. removeAtOffset t x = Inr t')
              \<and> (x \<in> keys (rootNode t) \<longrightarrow> insertAtOffset t x = Inr t)
              \<and> (x \<notin> keys (rootNode t) \<longrightarrow>
                    removeAtOffset t x = Inr t \<and> getNodeByOffset t x = NoneNode
                    \<and> getOffsetAfter \<lparr>rootNode = NoneNode :: ('k, 'p) node\<rparr> x = None
                    \<and> getOffsetBefore \<lparr>rootNode = NoneNode :: ('k, 'p) node\<rparr> x = None)" for x
    using insertAtOffset_invariants[OF t(2), of x] removeAtOffset_invariants[OF t(2), of x]
      insertAtOffset_same[OF t(2), of x] removeAtOffset_absent[OF t(2), of x]
      getNodeByOffset_absent[of x t]
    by (auto simp: getOffsetAfter_def getOffsetBefore_def getNodeAfter_def getNodeBefore_def)
  then show "\<exists>t. applyOps (emptyTree :: ('k, 'p) AVLTree) ops = Inr t
        \<and> (\<forall>x. (\<exists>t'. insertAtOffset t x = Inr t') \<and> (\<exists>t'. removeAtOffset t x = Inr t')
              \<and> (x \<in> keys (rootNode t) \<longrightarrow> insertAtOffset t x = Inr t)
              \<and> (x \<notin> keys (rootNode t) \<longrightarrow>
                    removeAtOffset t x = Inr t \<and> getNodeByOffset t x = NoneNode
                    \<and> getOffsetAfter \<lparr>rootNode = NoneNode :: ('k, 'p) node\<rparr> x = None
                    \<and> getOffsetBefore \<lparr>rootNode = NoneNode :: ('k, 'p) node\<rparr> x = None))"
    using t(1) by blast
qed

subsection \<open>The claims at the example tree\<close>

lemma exampleTree_invariants: "invariants exampleTree"
  by (simp add: exampleTree_def invariants_def bst_def)

lemma exampleTree_keys: "keys (rootNode exampleTree) = {5, 10, 20, 30}"
  by (auto simp: exampleTree_def)

theorem neighbour_offsets_witness:
  "bst (rootNode exampleTree)
   \<and> getOffsetAfter exampleTree 10 = Some 20
   \<and> Min {z \<in> keys (rootNode exampleTree). 10 < z} = 20
   \<and> getOffsetBefore exampleTree 10 = Some 5
   \<and> Max {z \<in> keys (rootNode exampleTree). z < 10} = 5
   \<and> getOffsetAfter exampleTree 30 = None
   \<and> {z \<in> keys (rootNode exampleTree). 30 < z} = {}
   \<and> getOffsetBefore exampleTree 5 = None
   \<and> {z \<in> keys (rootNode exampleTree). z < 5} = {}"
proof -
  have b: "bst (rootNode exampleTree)" using exampleTree_invariants by (simp add: invariants_def)
  have e: "getOffsetAfter exampleTree 10 = Some 20" "getOffsetBefore exampleTree 10 = Some 5"
    "getOffsetAfter exampleTree 30 = None" "getOffsetBefore exampleTree 5 = None"
    by (simp_all add: exampleTree_def getOffsetAfter_def getOffsetBefore_def
        getNodeAfter_def getNodeBefore_def)
  have "Min {z \<in> keys (rootNode exampleTree). 10 < z} = 20"
    "Max {z \<in> keys (rootNode exampleTree). z < 10} = 5"
    using neighbour_offsets[OF b, of 10] e(1,2) by (simp_all split: if_splits)
  moreover have "{z \<in> keys (rootNode exampleTree). 30 < z} = {}"
    "{z \<in> keys (rootNode exampleTree). z < 5} = {}"
    using neighbour_offsets[OF b, of 30] neighbour_offsets[OF b, of 5] e(3,4)
    by (simp_all split: if_splits)
  ultimately show ?thesis using b e by simp
qed


theorem no_fault_on_reachable_trees_witness:
  "\<exists>t. applyOps (emptyTree :: (int, nat) AVLTree) [Insert 20, Insert 10, Insert 5, Insert 30] = Inr t
     \<and> 10 \<in> keys (rootNode t) \<and> insertAtOffset t 10 = Inr t
     \<and> 7 \<notin> keys (rootNode t) \<and> removeAtOffset t 7 = Inr t \<and> getNodeByOffset t 7 = NoneNode
     \<and> (\<exists>t'. insertAtOffset t 7 = Inr t') \<and> (\<exists>t'. removeAtOffset t 10 = Inr t')
     \<and> cached (rootNode rightChain) \<and> insertAtOffset rightChain 0 = Inl TimespanException"
proof -
  have c: "cached (rootNode rightChain)" by (simp add: rightChain_def)
  have x: "insertAtOffset rightChain 0 = Inl TimespanException"
    by (simp add: rightChain_def insertAtOffset_def newNode_def)
  let ?ops = "[Insert 20, Insert 10, Insert 5, Insert 30] :: int operation list"
  from no_fault_on_reachable_trees[of ?ops] obtain t :: "(int, nat) AVLTree"
    where t: "applyOps emptyTree ?ops = Inr t"
      and a: "\<And>x. (\<exists>t'. insertAtOffset t x = Inr t') \<and> (\<exists>t'. removeAtOffset t x = Inr t')
              \<and> (x \<in> keys (rootNode t) \<longrightarrow> insertAtOffset t x = Inr t)
              \<and> (x \<notin> keys (rootNode t) \<longrightarrow>
                    removeAtOffset t x = Inr t \<and> getNodeByOffset t x = NoneNode)"
    by blast
  have "applyOps (emptyTree :: (int, nat) AVLTree) ?ops =
      Inr \<lparr>rootNode = AVLNode 1 2 10 None (AVLNode 0 0 5 None NoneNode NoneNode)
            (AVLNode 1 1 20 None NoneNode (AVLNode 0 0 30 None NoneNode NoneNode))\<rparr>"
    by (simp add: emptyTree_def insertAtOffset_def newNode_def)
  then have k: "keys (rootNode t) = {5, 10, 20, 30}" using t by auto
  have "10 \<in> keys (rootNode t)" "7 \<notin> keys (rootNode t)" using k by simp_all
  then show ?thesis using t a[of 10] a[of 7] c x by blast
qed

theorem insert_idempotent_witness:
  "invariants exampleTree \<and> 10 \<in> keys (rootNode exampleTree)
   \<and> insertAtOffset exampleTree 10 = Inr exampleTree
   \<and> payload (getNodeByOffset exampleTree 10) = Some 7
   \<and> (\<exists>t'. insertAtOffset exampleTree 40 = Inr t' \<and> insertAtOffset t' 40 = Inr t')"
proof -
  have k: "10 \<in> keys (rootNode exampleTree)" by (simp add: exampleTree_keys)
  have p: "payload (getNodeByOffset exampleTree 10) = Some 7"
    by (simp add: exampleTree_def getNodeByOffset_def)
  show ?thesis
    using insert_idempotent[OF exampleTree_invariants, of 10]
      insert_idempotent[OF exampleTree_invariants, of 40] exampleTree_invariants k p
    by blast
qed

theorem remove_absent_unchanged_witness:
  "invariants exampleTree \<and> 7 \<notin> keys (rootNode exampleTree)
   \<and> removeAtOffset exampleTree 7 = Inr exampleTree
   \<and> invariants (emptyTree :: (int, nat) AVLTree)
   \<and> 7 \<notin> keys (rootNode (emptyTree :: (int, nat) AVLTree))
   \<and> removeAtOffset (emptyTree :: (int, nat) AVLTree) 7 = Inr emptyTree"
proof -
  have k: "7 \<notin> keys (rootNode exampleTree)" by (simp add: exampleTree_keys)
  have k0: "7 \<notin> keys (rootNode (emptyTree :: (int, nat) AVLTree))" by (simp add: emptyTree_def)
  show ?thesis
    using remove_absent_unchanged[OF exampleTree_invariants k]
      remove_absent_unchanged[OF invariants_emptyTree k0] exampleTree_invariants
      invariants_emptyTree k k0
    by blast
qed

theorem insert_keeps_offsets_and_payloads_witness:
  "insertAtOffset exampleTree 40 =
      Inr \<lparr>rootNode = AVLNode 1 2 10 (Some 7) (AVLNode 0 0 5 None NoneNode NoneNode)
             (AVLNode 0 1 30 None (AVLNode 0 0 20 (Some 3) NoneNode NoneNode)
                (AVLNode 0 0 40 None NoneNode NoneNode))\<rparr>
   \<and> invariants exampleTree \<and> 20 \<in> keys (rootNode exampleTree)
   \<and> payload (getNodeByOffset
        (\<lparr>rootNode = AVLNode 1 2 10 (Some 7) (AVLNode 0 0 5 None NoneNode NoneNode)
             (AVLNode 0 1 30 None (AVLNode 0 0 20 (Some 3) NoneNode NoneNode)
                (AVLNode 0 0 40 None NoneNode NoneNode))\<rparr> :: (int, nat) AVLTree) 20)
       = payload (getNodeByOffset exampleTree 20)
   \<and> payload (getNodeByOffset exampleTree 20) = Some 3"
proof -
  have e: "insertAtOffset exampleTree 40 =
      Inr \<lparr>rootNode = AVLNode 1 2 10 (Some 7) (AVLNode 0 0 5 None NoneNode NoneNode)
             (AVLNode 0 1 30 None (AVLNode 0 0 20 (Some 3) NoneNode NoneNode)
                (AVLNode 0 0 40 None NoneNode NoneNode))\<rparr>"
    by (simp add: exampleTree_def insertAtOffset_def newNode_def)
  have k: "20 \<in> keys (rootNode exampleTree)" by (simp add: exampleTree_keys)
  have p: "payload (getNodeByOffset exampleTree 20) = Some 3"
    by (simp add: exampleTree_def getNodeByOffset_def)
  show ?thesis
    using insert_keeps_offsets_and_payloads[OF e] exampleTree_invariants k p e by blast
qed

end
